theory Spec2Isabelle
  imports Complex_Main "HOL-Library.Word"
begin

section \<open>Data of \<^verbatim>\<open>whispertest2.py\<close>\<close>

text \<open>
  Raw audio is a Python \<^verbatim>\<open>bytes\<close> object; a Python \<^verbatim>\<open>str\<close> is a sequence of Unicode
  code points. The console messages of the program are Korean text with emoji, so a
  string is modelled as the list of its code points.
\<close>

type_synonym byte = "8 word"
type_synonym bytes = "byte list"
type_synonym ustr = "nat list"

definition ascii :: "string \<Rightarrow> ustr" where
  "ascii s = map of_char s"

text \<open>
  The exceptions the program distinguishes: \<^verbatim>\<open>KeyboardInterrupt\<close> (not an instance of
  \<^verbatim>\<open>Exception\<close>), \<^verbatim>\<open>queue.Empty\<close>, and any other instance of \<^verbatim>\<open>Exception\<close>, kept
  with the text \<^verbatim>\<open>str(e)\<close> that the handlers print.
\<close>

datatype exn = KeyboardInterrupt | QueueEmpty | Exception ustr

fun is_Exception :: "exn \<Rightarrow> bool" where
  "is_Exception KeyboardInterrupt = False"
| "is_Exception QueueEmpty = True"
| "is_Exception (Exception m) = True"

fun is_QueueEmpty :: "exn \<Rightarrow> bool" where
  "is_QueueEmpty QueueEmpty = True"
| "is_QueueEmpty e = False"

fun str_exn :: "exn \<Rightarrow> ustr" where
  "str_exn (Exception m) = m"
| "str_exn e = []"

text \<open>
  Calls into the two external libraries (faster_whisper, PyAudio) and into
  \<^verbatim>\<open>threading\<close>. What they do is outside the repository; the model records that the call
  was made and asks a parameter whether it raises.
\<close>

datatype libcall =
    LoadModel | NewPyAudio | OpenStream | StartStream
  | StopStream | CloseStream | Terminate | StartThread

text \<open>
  Observable effects, in the order in which they happen: a line printed on the console,
  a \<^verbatim>\<open>time.sleep\<close> (in milliseconds), a frame taken from the queue by \<^verbatim>\<open>get_nowait\<close>, a
  chunk handed to \<^verbatim>\<open>process_audio\<close>, a waveform handed to \<^verbatim>\<open>model.transcribe\<close>, and a
  library call.
\<close>

datatype event =
    Print ustr
  | Sleep nat
  | QGet bytes
  | ProcessAudio bytes
  | Transcribe "real list"
  | Call libcall

text \<open>
  The object \<^verbatim>\<open>SimpleRealtimeWhisper\<close> together with the local variable \<^verbatim>\<open>audio_chunk\<close> of
  the worker closure and the effect trace. \<^verbatim>\<open>has_stream\<close> and \<^verbatim>\<open>has_p\<close> are
  \<^verbatim>\<open>hasattr(self, 'stream')\<close> and \<^verbatim>\<open>hasattr(self, 'p')\<close>; \<^verbatim>\<open>audio_buffer\<close> is the
  \<^verbatim>\<open>queue.Queue\<close>, oldest frame first.
\<close>

record sys =
  is_recording :: bool
  audio_buffer :: "bytes list"
  has_stream :: bool
  has_p :: bool
  audio_chunk :: bytes
  trace :: "event list"

definition log :: "event \<Rightarrow> sys \<Rightarrow> sys" where
  "log e s = s\<lparr>trace := trace s @ [e]\<rparr>"

type_synonym lib = "event list \<Rightarrow> libcall \<Rightarrow> ustr option"
type_synonym engine = "real list \<Rightarrow> ustr + ustr list"
type_synonym hms = "nat \<times> nat \<times> nat"

definition CHUNK :: nat where "CHUNK = 1024"
definition CHANNELS :: nat where "CHANNELS = 1"
definition RATE :: nat where "RATE = 16000"
definition paContinue :: nat where "paContinue = 0"

section \<open>Console texts\<close>

definition msg_init :: ustr where
  "msg_init = [127908, 32, 49892, 49884, 44036, 32, 51020, 49457, 51064, 49885, 32,
     52488, 44592, 54868, 32, 51473, 46, 46, 46]"

definition msg_loading :: ustr where
  "msg_loading = ascii ''Whisper '' @ [47784, 45944, 32, 47196, 46377, 32, 51473, 46, 46, 46,
     32, 40, 52376, 51020, 32, 49892, 54665, 49884, 32, 45796, 50868, 47196, 46300, 32,
     49884, 44036, 51060, 32, 44152, 47540, 32, 49688, 32, 51080, 49845, 45768, 45796, 41]"

definition msg_loaded :: ustr where
  "msg_loaded = [9989, 32, 47784, 45944, 32, 47196, 46377, 32, 50756, 47308, 33]"

definition msg_audio_error :: ustr where
  "msg_audio_error = [10060, 32, 50724, 46356, 50724, 32, 52376, 47532, 32, 50724, 47448, 58, 32]"

definition msg_rule :: ustr where
  "msg_rule = replicate 50 61"

definition msg_started :: ustr where
  "msg_started = [127908, 32, 49892, 49884, 44036, 32, 51020, 49457, 51064, 49885, 32,
     49884, 51089, 33]"

definition msg_speak :: ustr where
  "msg_speak = [128172, 32, 47560, 51060, 53356, 50640, 32, 45824, 44256, 32, 47568, 54644,
     48372, 49464, 50836]"

definition msg_ctrl_c :: ustr where
  "msg_ctrl_c = [9209, 65039, 32, 32, 51333, 47308, 54616, 47140, 47732, 32] @ ascii ''Ctrl+C''
     @ [47484, 32, 45572, 47476, 49464, 50836]"

definition msg_clock :: ustr where
  "msg_clock = [128336, 32]"

definition msg_worker_error :: ustr where
  "msg_worker_error = [10060, 32, 52376, 47532, 32, 50724, 47448, 58, 32]"

definition msg_stopping :: ustr where
  "msg_stopping = [10, 128721, 32, 45433, 51020, 51012, 32, 51473, 51648, 54633, 45768, 45796,
     46, 46, 46]"

definition msg_stopped :: ustr where
  "msg_stopped = [9989, 32, 45433, 51020, 51060, 32, 51473, 51648, 46104, 50632, 49845, 45768,
     45796, 46]"

definition msg_interrupted :: ustr where
  "msg_interrupted = [10, 10, 128075, 32, 49324, 50857, 51088, 50640, 32, 51032, 54644, 32,
     51473, 45800, 46104, 50632, 49845, 45768, 45796, 46]"

definition msg_main_error :: ustr where
  "msg_main_error = [10060, 32, 50724, 47448, 32, 48156, 49373, 58, 32]"

definition msg_buffer_size :: ustr where
  "msg_buffer_size = ascii ''buffer size must be a multiple of element size''"

section \<open>Python and numpy primitives used by the program\<close>

text \<open>
  \<^verbatim>\<open>str.strip()\<close> removes the leading and trailing characters that Python counts as
  white space.
\<close>

definition isspace :: "nat \<Rightarrow> bool" where
  "isspace c = ((9 \<le> c \<and> c \<le> 13) \<or> (28 \<le> c \<and> c \<le> 32) \<or> c = 133 \<or> c = 160
     \<or> c = 5760 \<or> (8192 \<le> c \<and> c \<le> 8202) \<or> c = 8232 \<or> c = 8233 \<or> c = 8239
     \<or> c = 8287 \<or> c = 12288)"

definition strip :: "ustr \<Rightarrow> ustr" where
  "strip s = rev (dropWhile isspace (rev (dropWhile isspace s)))"

text \<open>\<^verbatim>\<open>time.strftime("%H:%M:%S")\<close> of a wall-clock reading (hour, minute, second).\<close>

definition two_digits :: "nat \<Rightarrow> ustr" where
  "two_digits n = [48 + n div 10 mod 10, 48 + n mod 10]"

fun strftime_HMS :: "hms \<Rightarrow> ustr" where
  "strftime_HMS (h, m, sec) = two_digits h @ [58] @ two_digits m @ [58] @ two_digits sec"

text \<open>
  \<^verbatim>\<open>np.frombuffer(audio_data, dtype=np.int16)\<close>: two bytes per sample, low byte first;
  a buffer of odd length raises \<^verbatim>\<open>ValueError\<close>.
\<close>

fun int16_samples :: "bytes \<Rightarrow> 16 word list" where
  "int16_samples (lo # hi # rest) = word_cat hi lo # int16_samples rest"
| "int16_samples rest = []"

definition frombuffer_int16 :: "bytes \<Rightarrow> exn + 16 word list" where
  "frombuffer_int16 audio_data =
     (if odd (length audio_data) then Inl (Exception msg_buffer_size)
      else Inr (int16_samples audio_data))"

text \<open>
  \<^verbatim>\<open>audio_np.astype(np.float32) / 32768.0\<close>. Every 16-bit integer divided by \<open>2^15\<close> is a
  float32 value, so the quotient is exact and the waveform is the list of these numbers.
\<close>

definition to_float :: "16 word list \<Rightarrow> real list" where
  "to_float audio_np = map (\<lambda>w. real_of_int (sint w) / 32768) audio_np"

section \<open>\<^verbatim>\<open>audio_callback\<close> (lines 29-33)\<close>

text \<open>
  The arguments \<^verbatim>\<open>frame_count\<close>, \<^verbatim>\<open>time_info\<close> and \<^verbatim>\<open>status\<close> are not read.
  \<^verbatim>\<open>queue.Queue()\<close> is unbounded, so \<^verbatim>\<open>put\<close> neither blocks nor raises.
\<close>

definition audio_callback :: "sys \<Rightarrow> bytes \<Rightarrow> sys \<times> (bytes \<times> nat)" where
  "audio_callback s in_data =
     ((if is_recording s then s\<lparr>audio_buffer := audio_buffer s @ [in_data]\<rparr> else s),
      (in_data, paContinue))"

section \<open>\<^verbatim>\<open>process_audio\<close> (lines 35-64)\<close>

text \<open>The loop of lines 55-58 over the segments, \<^verbatim>\<open>text\<close> being the accumulator.\<close>

fun collect_segments :: "ustr list \<Rightarrow> ustr \<Rightarrow> ustr" where
  "collect_segments [] text = text"
| "collect_segments (segment # segments) text =
     (if strip segment \<noteq> [] then collect_segments segments (text @ strip segment @ [32])
      else collect_segments segments text)"

text \<open>
  The body of the \<^verbatim>\<open>try\<close>. The engine is a parameter: on a waveform it either raises an
  \<^verbatim>\<open>Exception\<close> (\<open>Inl\<close> of its text) or yields the texts of its segments. The segments are
  a generator that is consumed inside the \<^verbatim>\<open>try\<close>, so an exception raised while
  iterating takes the same handler as one raised by the call.
\<close>

definition process_audio_try :: "engine \<Rightarrow> bytes \<Rightarrow> sys \<Rightarrow> (exn + ustr option) \<times> sys" where
  "process_audio_try eng audio_data s =
     (case frombuffer_int16 audio_data of
        Inl e \<Rightarrow> (Inl e, s)
      | Inr audio_np \<Rightarrow>
          (let audio_float = to_float audio_np in
           if real (length audio_float) < real RATE * 1.0 then (Inr None, s)
           else
             (case eng audio_float of
                Inl m \<Rightarrow> (Inl (Exception m), log (Transcribe audio_float) s)
              | Inr segments \<Rightarrow>
                  (Inr (Some (strip (collect_segments segments []))),
                   log (Transcribe audio_float) s))))"

definition process_audio :: "engine \<Rightarrow> bytes \<Rightarrow> sys \<Rightarrow> (exn + ustr option) \<times> sys" where
  "process_audio eng audio_data s =
     (case process_audio_try eng audio_data s of
        (Inr r, s') \<Rightarrow> (Inr r, s')
      | (Inl e, s') \<Rightarrow>
          if is_Exception e then (Inr None, log (Print (msg_audio_error @ str_exn e)) s')
          else (Inl e, s'))"

section \<open>The worker \<^verbatim>\<open>process_audio_thread\<close> (lines 90-116)\<close>

definition chunk_duration :: real where
  "chunk_duration = 3.0"

definition chunk_size :: nat where
  "chunk_size = nat \<lfloor>real RATE * chunk_duration\<rfloor>"

definition get_nowait :: "sys \<Rightarrow> (exn + bytes) \<times> sys" where
  "get_nowait s =
     (case audio_buffer s of
        [] \<Rightarrow> (Inl QueueEmpty, s)
      | frame # rest \<Rightarrow> (Inr frame, log (QGet frame) (s\<lparr>audio_buffer := rest\<rparr>)))"

text \<open>Lines 98-99: take one frame if the queue is not empty.\<close>

definition collect_frame :: "sys \<Rightarrow> exn option \<times> sys" where
  "collect_frame s =
     (if audio_buffer s \<noteq> [] then
        (case get_nowait s of
           (Inl e, s') \<Rightarrow> (Some e, s')
         | (Inr frame, s') \<Rightarrow> (None, s'\<lparr>audio_chunk := audio_chunk s' @ frame\<rparr>))
      else (None, s))"

text \<open>Lines 102-110: slice one chunk off the front, transcribe it, print the text.\<close>

definition slice_and_process :: "engine \<Rightarrow> hms \<Rightarrow> sys \<Rightarrow> exn option \<times> sys" where
  "slice_and_process eng now s =
     (if length (audio_chunk s) \<ge> chunk_size then
        (let process_data = take chunk_size (audio_chunk s);
             s1 = s\<lparr>audio_chunk := drop chunk_size (audio_chunk s)\<rparr>
         in case process_audio eng process_data (log (ProcessAudio process_data) s1) of
              (Inl e, s2) \<Rightarrow> (Some e, s2)
            | (Inr None, s2) \<Rightarrow> (None, s2)
            | (Inr (Some text), s2) \<Rightarrow>
                if text \<noteq> [] then
                  (None, log (Print (msg_clock @ [91] @ strftime_HMS now @ [93, 32] @ text)) s2)
                else (None, s2))
      else (None, s))"

definition worker_try :: "engine \<Rightarrow> hms \<Rightarrow> sys \<Rightarrow> exn option \<times> sys" where
  "worker_try eng now s =
     (case collect_frame s of
        (Some e, s1) \<Rightarrow> (Some e, s1)
      | (None, s1) \<Rightarrow> slice_and_process eng now s1)"

text \<open>
  One pass through the body of \<^verbatim>\<open>while self.is_recording\<close> with its two handlers. The
  result \<open>Some e\<close> is an exception that no handler takes: it ends the thread.
\<close>

definition worker_iteration :: "engine \<Rightarrow> hms \<Rightarrow> sys \<Rightarrow> exn option \<times> sys" where
  "worker_iteration eng now s =
     (case worker_try eng now s of
        (None, s') \<Rightarrow> (None, s')
      | (Some e, s') \<Rightarrow>
          if is_QueueEmpty e then (None, log (Sleep 10) s')
          else if is_Exception e then
            (None, log (Sleep 100) (log (Print (msg_worker_error @ str_exn e)) s'))
          else (Some e, s'))"

text \<open>
  The two threads interleave: the audio library calls \<^verbatim>\<open>audio_callback\<close> with a frame, the
  worker makes one pass of its loop at some wall-clock time. A schedule is a list of such
  steps. The worker tests \<^verbatim>\<open>self.is_recording\<close> before each pass and leaves the loop when
  it is cleared; the run stops when an exception ends the worker thread.
\<close>

datatype action = Callback bytes | Iterate hms

fun run :: "engine \<Rightarrow> action list \<Rightarrow> sys \<Rightarrow> exn option \<times> sys" where
  "run eng [] s = (None, s)"
| "run eng (Callback in_data # acts) s = run eng acts (fst (audio_callback s in_data))"
| "run eng (Iterate now # acts) s =
     (if \<not> is_recording s then run eng acts s
      else
        (case worker_iteration eng now s of
           (Some e, s') \<Rightarrow> (Some e, s')
         | (None, s') \<Rightarrow> run eng acts s'))"

definition worker_loop :: "engine \<Rightarrow> hms list \<Rightarrow> sys \<Rightarrow> exn option \<times> sys" where
  "worker_loop eng clock s = run eng (map Iterate clock) s"

section \<open>Reading the trace\<close>

fun chunks :: "event list \<Rightarrow> bytes list" where
  "chunks [] = []"
| "chunks (ProcessAudio c # tr) = c # chunks tr"
| "chunks (e # tr) = chunks tr"

fun fed :: "event list \<Rightarrow> bytes list" where
  "fed [] = []"
| "fed (QGet f # tr) = f # fed tr"
| "fed (e # tr) = fed tr"

fun printed :: "event list \<Rightarrow> ustr list" where
  "printed [] = []"
| "printed (Print l # tr) = l # printed tr"
| "printed (e # tr) = printed tr"

fun sleeps :: "event list \<Rightarrow> nat list" where
  "sleeps [] = []"
| "sleeps (Sleep d # tr) = d # sleeps tr"
| "sleeps (e # tr) = sleeps tr"

fun transcribed :: "event list \<Rightarrow> real list list" where
  "transcribed [] = []"
| "transcribed (Transcribe w # tr) = w # transcribed tr"
| "transcribed (e # tr) = transcribed tr"

fun calls :: "event list \<Rightarrow> libcall list" where
  "calls [] = []"
| "calls (Call c # tr) = c # calls tr"
| "calls (e # tr) = calls tr"

section \<open>Session control (lines 10-27, 66-88, 119-134) and \<^verbatim>\<open>main\<close>\<close>

definition call :: "lib \<Rightarrow> libcall \<Rightarrow> sys \<Rightarrow> exn option \<times> sys" where
  "call lb c s =
     (case lb (trace s) c of
        Some m \<Rightarrow> (Some (Exception m), log (Call c) s)
      | None \<Rightarrow> (None, log (Call c) s))"

definition andthen :: "exn option \<times> sys \<Rightarrow> (sys \<Rightarrow> exn option \<times> sys) \<Rightarrow> exn option \<times> sys" where
  "andthen r f = (case r of (Some e, s) \<Rightarrow> (Some e, s) | (None, s) \<Rightarrow> f s)"

definition fresh :: sys where
  "fresh = \<lparr>is_recording = False, audio_buffer = [], has_stream = False, has_p = False,
     audio_chunk = [], trace = []\<rparr>"

definition init :: "lib \<Rightarrow> sys \<Rightarrow> exn option \<times> sys" where
  "init lb s =
     andthen (None, log (Print msg_loading)
                ((log (Print msg_init) s)\<lparr>audio_buffer := [], is_recording := False\<rparr>))
       (\<lambda>s. andthen (call lb LoadModel s)
       (\<lambda>s. (None, log (Print msg_loaded) s)))"

definition start_recording :: "lib \<Rightarrow> sys \<Rightarrow> exn option \<times> sys" where
  "start_recording lb s =
     andthen (call lb NewPyAudio s)
       (\<lambda>s. andthen (call lb OpenStream (s\<lparr>has_p := True\<rparr>))
       (\<lambda>s. andthen (call lb StartStream (s\<lparr>has_stream := True, is_recording := True\<rparr>))
       (\<lambda>s. andthen (None, log (Print msg_rule) (log (Print msg_ctrl_c) (log (Print msg_speak)
                (log (Print msg_started) (log (Print ([10] @ msg_rule)) s)))))
       (\<lambda>s. call lb StartThread (s\<lparr>audio_chunk := []\<rparr>)))))"

definition stop_recording :: "lib \<Rightarrow> sys \<Rightarrow> exn option \<times> sys" where
  "stop_recording lb s =
     andthen (None, (log (Print msg_stopping) s)\<lparr>is_recording := False\<rparr>)
       (\<lambda>s. andthen (if has_stream s
                      then andthen (call lb StopStream s) (call lb CloseStream)
                      else (None, s))
       (\<lambda>s. andthen (if has_p s then call lb Terminate s else (None, s))
       (\<lambda>s. (None, log (Print msg_stopped) s))))"

text \<open>
  \<^verbatim>\<open>while True: time.sleep(0.1)\<close> leaves only by an exception. \<open>n\<close> sleeps complete
  before the interrupt arrives in the next one.
\<close>

fun wait_loop :: "nat \<Rightarrow> sys \<Rightarrow> exn option \<times> sys" where
  "wait_loop 0 s = (Some KeyboardInterrupt, log (Sleep 100) s)"
| "wait_loop (Suc n) s = wait_loop n (log (Sleep 100) s)"

text \<open>
  The \<^verbatim>\<open>except\<close> clauses and the \<^verbatim>\<open>finally\<close> of \<^verbatim>\<open>main\<close>; \<open>bound\<close> is
  \<^verbatim>\<open>'whisper' in locals()\<close>.
\<close>

definition main_handlers :: "lib \<Rightarrow> bool \<Rightarrow> exn option \<times> sys \<Rightarrow> exn option \<times> sys" where
  "main_handlers lb bound r =
     (let (pending, s1) =
            (case r of
               (None, s) \<Rightarrow> (None, s)
             | (Some e, s) \<Rightarrow>
                 if e = KeyboardInterrupt then (None, log (Print msg_interrupted) s)
                 else if is_Exception e then (None, log (Print (msg_main_error @ str_exn e)) s)
                 else (Some e, s))
      in if bound then
           (case stop_recording lb s1 of
              (Some e', s2) \<Rightarrow> (Some e', s2)
            | (None, s2) \<Rightarrow> (pending, s2))
         else (pending, s1))"

text \<open>
  \<open>interrupt = Some n\<close>: Ctrl-C arrives after \<open>n\<close> sleeps of the wait loop;
  \<open>interrupt = None\<close>: it never arrives, and if start-up succeeded \<^verbatim>\<open>main\<close> does not
  return (\<open>None\<close>).
\<close>

definition main :: "lib \<Rightarrow> nat option \<Rightarrow> (exn option \<times> sys) option" where
  "main lb interrupt =
     (case init lb fresh of
        (Some e, s) \<Rightarrow> Some (main_handlers lb False (Some e, s))
      | (None, s) \<Rightarrow>
          (case start_recording lb s of
             (Some e, s') \<Rightarrow> Some (main_handlers lb True (Some e, s'))
           | (None, s') \<Rightarrow>
               (case interrupt of
                  None \<Rightarrow> None
                | Some n \<Rightarrow> Some (main_handlers lb True (wait_loop n s')))))"

text \<open>
  The interpreter ends with status 0 when \<^verbatim>\<open>main()\<close> returns and with status 1 when an
  exception leaves it.
\<close>

fun exit_code :: "exn option \<times> sys \<Rightarrow> nat" where
  "exit_code (None, s) = 0"
| "exit_code (Some e, s) = 1"

section \<open>Auxiliary notions for the proofs\<close>

text \<open>
  The accounting equation of the accumulator, the byte stream that is still in the
  pipeline or already emitted, and a bound on the number of passes that still do work.
\<close>

definition accounted :: "sys \<Rightarrow> bool" where
  "accounted s \<longleftrightarrow>
     length (audio_chunk s) + length (chunks (trace s)) * chunk_size
       = length (concat (fed (trace s)))"

definition stream_of :: "sys \<Rightarrow> bytes" where
  "stream_of s = concat (chunks (trace s)) @ audio_chunk s @ concat (audio_buffer s)"

definition pending_work :: "sys \<Rightarrow> nat" where
  "pending_work s = length (audio_buffer s)
     + (length (audio_chunk s) + length (concat (audio_buffer s))) div chunk_size"

text \<open>
  The chunks emitted so far followed by the accumulator are the bytes taken from the
  queue so far; and: the accumulator is below one chunk and no queued frame is longer
  than a chunk.
\<close>

definition gathered :: "sys \<Rightarrow> bool" where
  "gathered s \<longleftrightarrow> concat (chunks (trace s)) @ audio_chunk s = concat (fed (trace s))"

definition small_frames :: "sys \<Rightarrow> bool" where
  "small_frames s \<longleftrightarrow>
     length (audio_chunk s) < chunk_size \<and> list_all (\<lambda>f. length f \<le> chunk_size) (audio_buffer s)"

text \<open>
  The words of the specification for the printed text: the segments, trimmed, the empty
  ones left out, joined in order by single spaces.
\<close>

fun join_spaces :: "ustr list \<Rightarrow> ustr" where
  "join_spaces [] = []"
| "join_spaces [t] = t"
| "join_spaces (t # u # ts) = t @ [32] @ join_spaces (u # ts)"

text \<open>A string that is not empty and neither starts nor ends with white space.\<close>

definition trimmed :: "ustr \<Rightarrow> bool" where
  "trimmed t \<longleftrightarrow> t \<noteq> [] \<and> \<not> isspace (hd t) \<and> \<not> isspace (last t)"

text \<open>
  The chunk that the next pass of the worker slices off (when the accumulator, with the
  frame taken in that pass, is long enough), and the waveform computed from a chunk.
\<close>

definition next_chunk :: "sys \<Rightarrow> bytes" where
  "next_chunk s = take chunk_size (audio_chunk s @ concat (take 1 (audio_buffer s)))"

definition waveform :: "bytes \<Rightarrow> real list" where
  "waveform c = to_float (int16_samples c)"

text \<open>Concrete engines and states used as test inputs.\<close>

definition silence :: engine where
  "silence w = Inr []"

text \<open>
  An engine that raises on a waveform starting with a zero sample and answers
  \<open>hello\<close> otherwise.
\<close>

definition picky :: engine where
  "picky w = (if hd w = 0 then Inl (ascii ''boom'') else Inr [ascii ''hello''])"

definition started :: sys where
  "started = fresh\<lparr>is_recording := True\<rparr>"

text \<open>A started worker with one queued frame of 24000 silent samples.\<close>

definition silent_then_tone :: sys where
  "silent_then_tone = started\<lparr>audio_buffer := [replicate 48000 0]\<rparr>"

definition hello :: engine where
  "hello w = Inr [ascii ''hello'']"

text \<open>
  Audio libraries used as test inputs: one on which no call raises, one on which loading
  the model raises, one on which opening the input stream raises.
\<close>

definition quiet :: lib where
  "quiet tr c = None"

definition model_fails :: lib where
  "model_fails tr c = (if c = LoadModel then Some (ascii ''model failed to load'') else None)"

definition no_device :: lib where
  "no_device tr c = (if c = OpenStream then Some (ascii ''Invalid input device'') else None)"

text \<open>The session after \<^verbatim>\<open>__init__\<close> and \<^verbatim>\<open>start_recording\<close>, and after one stop.\<close>

definition session :: sys where
  "session = snd (start_recording quiet (snd (init quiet fresh)))"

definition stopped_once :: sys where
  "stopped_once = snd (stop_recording quiet session)"

text \<open>What one call of \<^verbatim>\<open>stop_recording\<close> does on a started session.\<close>

definition release_events :: "event list" where
  "release_events =
     [Print msg_stopping, Call StopStream, Call CloseStream, Call Terminate, Print msg_stopped]"

text \<open>
  What one call of \<^verbatim>\<open>stop_recording\<close> does in any state, when no release call raises:
  the stream is stopped and closed if it was opened, PyAudio is terminated if it was
  created.
\<close>

definition teardown :: "sys \<Rightarrow> event list" where
  "teardown s =
     [Print msg_stopping]
     @ (if has_stream s then [Call StopStream, Call CloseStream] else [])
     @ (if has_p s then [Call Terminate] else [])
     @ [Print msg_stopped]"

text \<open>The session in which opening the input stream has failed.\<close>

definition no_device_session :: sys where
  "no_device_session = snd (start_recording no_device (snd (init no_device fresh)))"

section \<open>Basic facts\<close>

lemma chunk_size_value: "chunk_size = 48000"
  by (simp add: chunk_size_def RATE_def chunk_duration_def)

lemma chunks_append: "chunks (xs @ ys) = chunks xs @ chunks ys"
  by (induction xs rule: chunks.induct) simp_all

lemma fed_append: "fed (xs @ ys) = fed xs @ fed ys"
  by (induction xs rule: fed.induct) simp_all

lemma printed_append: "printed (xs @ ys) = printed xs @ printed ys"
  by (induction xs rule: printed.induct) simp_all

lemma sleeps_append: "sleeps (xs @ ys) = sleeps xs @ sleeps ys"
  by (induction xs rule: sleeps.induct) simp_all

lemma transcribed_append: "transcribed (xs @ ys) = transcribed xs @ transcribed ys"
  by (induction xs rule: transcribed.induct) simp_all

lemma calls_append: "calls (xs @ ys) = calls xs @ calls ys"
  by (induction xs rule: calls.induct) simp_all

lemmas reader_append = chunks_append fed_append printed_append sleeps_append
  transcribed_append calls_append

lemma log_fields:
  "is_recording (log e s) = is_recording s"
  "audio_buffer (log e s) = audio_buffer s"
  "has_stream (log e s) = has_stream s"
  "has_p (log e s) = has_p s"
  "audio_chunk (log e s) = audio_chunk s"
  "trace (log e s) = trace s @ [e]"
  by (simp_all add: log_def)

lemma length_int16_samples: "length (int16_samples b) = length b div 2"
  by (induction b rule: int16_samples.induct) simp_all

lemma process_audio_try_fields:
  "is_recording (snd (process_audio_try eng d s)) = is_recording s"
  "audio_buffer (snd (process_audio_try eng d s)) = audio_buffer s"
  "has_stream (snd (process_audio_try eng d s)) = has_stream s"
  "has_p (snd (process_audio_try eng d s)) = has_p s"
  "audio_chunk (snd (process_audio_try eng d s)) = audio_chunk s"
  "chunks (trace (snd (process_audio_try eng d s))) = chunks (trace s)"
  "fed (trace (snd (process_audio_try eng d s))) = fed (trace s)"
  "sleeps (trace (snd (process_audio_try eng d s))) = sleeps (trace s)"
  "printed (trace (snd (process_audio_try eng d s))) = printed (trace s)"
  "calls (trace (snd (process_audio_try eng d s))) = calls (trace s)"
  by (simp_all add: process_audio_try_def Let_def log_fields reader_append split: sum.split)

lemma process_audio_try_Exception:
  "fst (process_audio_try eng d s) = Inl e \<Longrightarrow> is_Exception e"
  by (auto simp: process_audio_try_def frombuffer_int16_def Let_def split: sum.splits if_splits)

lemma process_audio_returns: "\<exists>r. fst (process_audio eng d s) = Inr r"
proof (cases "process_audio_try eng d s")
  case (Pair r s')
  show ?thesis
  proof (cases r)
    case (Inr v)
    with Pair show ?thesis by (simp add: process_audio_def)
  next
    case (Inl x)
    with Pair have "is_Exception x"
      using process_audio_try_Exception [of eng d s x] by simp
    with Pair Inl show ?thesis by (simp add: process_audio_def)
  qed
qed

lemma process_audio_fields:
  "is_recording (snd (process_audio eng d s)) = is_recording s"
  "audio_buffer (snd (process_audio eng d s)) = audio_buffer s"
  "has_stream (snd (process_audio eng d s)) = has_stream s"
  "has_p (snd (process_audio eng d s)) = has_p s"
  "audio_chunk (snd (process_audio eng d s)) = audio_chunk s"
  "chunks (trace (snd (process_audio eng d s))) = chunks (trace s)"
  "fed (trace (snd (process_audio eng d s))) = fed (trace s)"
  "sleeps (trace (snd (process_audio eng d s))) = sleeps (trace s)"
  "calls (trace (snd (process_audio eng d s))) = calls (trace s)"
  using process_audio_try_fields [of eng d s]
  by (auto simp: process_audio_def log_fields reader_append split: prod.split sum.split)

lemma collect_frame_returns: "fst (collect_frame s) = None"
  by (simp add: collect_frame_def get_nowait_def split: list.split)

lemma collect_frame_fields:
  "is_recording (snd (collect_frame s)) = is_recording s"
  "has_stream (snd (collect_frame s)) = has_stream s"
  "has_p (snd (collect_frame s)) = has_p s"
  "chunks (trace (snd (collect_frame s))) = chunks (trace s)"
  "sleeps (trace (snd (collect_frame s))) = sleeps (trace s)"
  "printed (trace (snd (collect_frame s))) = printed (trace s)"
  "calls (trace (snd (collect_frame s))) = calls (trace s)"
  "transcribed (trace (snd (collect_frame s))) = transcribed (trace s)"
  by (simp_all add: collect_frame_def get_nowait_def log_fields reader_append split: list.split)

lemma collect_frame_queue:
  "audio_buffer (snd (collect_frame s)) = tl (audio_buffer s)"
  "audio_chunk (snd (collect_frame s)) = audio_chunk s @ concat (take 1 (audio_buffer s))"
  "fed (trace (snd (collect_frame s))) = fed (trace s) @ take 1 (audio_buffer s)"
  by (simp_all add: collect_frame_def get_nowait_def log_fields reader_append split: list.split)

lemma slice_and_process_returns: "fst (slice_and_process eng now s) = None"
  using process_audio_returns [of eng "take chunk_size (audio_chunk s)"
      "log (ProcessAudio (take chunk_size (audio_chunk s))) (s\<lparr>audio_chunk := drop chunk_size (audio_chunk s)\<rparr>)"]
  by (auto simp: slice_and_process_def Let_def split: prod.split sum.split option.split)

lemma slice_and_process_fields:
  "is_recording (snd (slice_and_process eng now s)) = is_recording s"
  "audio_buffer (snd (slice_and_process eng now s)) = audio_buffer s"
  "has_stream (snd (slice_and_process eng now s)) = has_stream s"
  "has_p (snd (slice_and_process eng now s)) = has_p s"
  "fed (trace (snd (slice_and_process eng now s))) = fed (trace s)"
  "sleeps (trace (snd (slice_and_process eng now s))) = sleeps (trace s)"
  "calls (trace (snd (slice_and_process eng now s))) = calls (trace s)"
  using process_audio_fields [of eng "take chunk_size (audio_chunk s)"
      "log (ProcessAudio (take chunk_size (audio_chunk s))) (s\<lparr>audio_chunk := drop chunk_size (audio_chunk s)\<rparr>)"]
  by (auto simp: slice_and_process_def Let_def log_fields reader_append
      split: prod.split sum.split option.split)

lemma slice_and_process_chunk:
  "audio_chunk (snd (slice_and_process eng now s)) =
     (if chunk_size \<le> length (audio_chunk s) then drop chunk_size (audio_chunk s) else audio_chunk s)"
  "chunks (trace (snd (slice_and_process eng now s))) =
     (if chunk_size \<le> length (audio_chunk s) then chunks (trace s) @ [take chunk_size (audio_chunk s)]
      else chunks (trace s))"
  using process_audio_fields [of eng "take chunk_size (audio_chunk s)"
      "log (ProcessAudio (take chunk_size (audio_chunk s))) (s\<lparr>audio_chunk := drop chunk_size (audio_chunk s)\<rparr>)"]
  by (auto simp: slice_and_process_def Let_def log_fields reader_append
      split: prod.split sum.split option.split)

lemma worker_try_eq: "worker_try eng now s = slice_and_process eng now (snd (collect_frame s))"
  using collect_frame_returns [of s]
  by (cases "collect_frame s") (simp add: worker_try_def)

lemma worker_iteration_eq:
  "worker_iteration eng now s = (None, snd (slice_and_process eng now (snd (collect_frame s))))"
  using slice_and_process_returns [of eng now "snd (collect_frame s)"]
  by (cases "slice_and_process eng now (snd (collect_frame s))")
     (simp add: worker_iteration_def worker_try_eq)

lemma chunk_size_pos: "0 < chunk_size"
  by (simp add: chunk_size_value)

lemma run_Iterate:
  "run eng (Iterate now # acts) s =
     (if is_recording s then run eng acts (snd (slice_and_process eng now (snd (collect_frame s))))
      else run eng acts s)"
  by (simp add: worker_iteration_eq)

lemma run_returns: "fst (run eng acts s) = None"
  by (induction eng acts s rule: run.induct) (simp_all add: worker_iteration_eq)

lemma callback_fields:
  "is_recording (fst (audio_callback s d)) = is_recording s"
  "audio_chunk (fst (audio_callback s d)) = audio_chunk s"
  "trace (fst (audio_callback s d)) = trace s"
  "has_stream (fst (audio_callback s d)) = has_stream s"
  "has_p (fst (audio_callback s d)) = has_p s"
  by (simp_all add: audio_callback_def)

lemma callback_queue:
  "audio_buffer (fst (audio_callback s d))
     = (if is_recording s then audio_buffer s @ [d] else audio_buffer s)"
  by (simp add: audio_callback_def)

lemma accounted_iteration:
  assumes "accounted s"
  shows "accounted (snd (slice_and_process eng now (snd (collect_frame s))))"
proof -
  let ?s1 = "snd (collect_frame s)"
  have a1: "accounted ?s1"
    using assms by (simp add: accounted_def collect_frame_queue collect_frame_fields)
  show ?thesis
    using a1 by (simp add: accounted_def slice_and_process_chunk slice_and_process_fields)
qed

lemma accounted_run: "accounted s \<Longrightarrow> accounted (snd (run eng acts s))"
proof (induction eng acts s rule: run.induct)
  case (1 eng s)
  then show ?case by simp
next
  case (2 eng in_data acts s)
  then show ?case by (simp add: accounted_def callback_fields)
next
  case (3 eng now acts s)
  show ?case
  proof (cases "is_recording s")
    case True
    have "accounted (snd (slice_and_process eng now (snd (collect_frame s))))"
      using "3.prems" by (rule accounted_iteration)
    with True "3.IH"(2) [of "None" "snd (slice_and_process eng now (snd (collect_frame s)))"]
    show ?thesis by (simp add: worker_iteration_eq)
  next
    case False
    with 3 show ?thesis by simp
  qed
qed

lemma collect_frame_bytes:
  "audio_chunk (snd (collect_frame s)) @ concat (audio_buffer (snd (collect_frame s)))
     = audio_chunk s @ concat (audio_buffer s)"
  by (cases "audio_buffer s") (simp_all add: collect_frame_queue)

lemma stream_iteration:
  "stream_of (snd (slice_and_process eng now (snd (collect_frame s)))) = stream_of s"
proof -
  let ?s1 = "snd (collect_frame s)"
  have "stream_of (snd (slice_and_process eng now ?s1)) = stream_of ?s1"
    by (simp add: stream_of_def slice_and_process_chunk slice_and_process_fields)
  also have "\<dots> = stream_of s"
    using collect_frame_bytes [of s] by (simp add: stream_of_def collect_frame_fields)
  finally show ?thesis .
qed

lemma chunk_lengths_iteration:
  assumes "\<forall>c \<in> set (chunks (trace s)). length c = chunk_size"
  shows "\<forall>c \<in> set (chunks (trace (snd (slice_and_process eng now (snd (collect_frame s)))))).
           length c = chunk_size"
  using assms by (simp add: slice_and_process_chunk collect_frame_fields)

lemma pending_work_iteration:
  "pending_work (snd (slice_and_process eng now (snd (collect_frame s)))) \<le> pending_work s - 1"
proof -
  let ?s1 = "snd (collect_frame s)"
  let ?s2 = "snd (slice_and_process eng now ?s1)"
  let ?B = "length (audio_chunk s) + length (concat (audio_buffer s))"
  have B1: "length (audio_chunk ?s1) + length (concat (audio_buffer ?s1)) = ?B"
    using arg_cong [OF collect_frame_bytes [of s], of length] by simp
  have q2: "audio_buffer ?s2 = tl (audio_buffer s)"
    by (simp add: slice_and_process_fields collect_frame_queue)
  show ?thesis
  proof (cases "chunk_size \<le> length (audio_chunk ?s1)")
    case True
    then have "length (audio_chunk ?s2) + length (concat (audio_buffer ?s2)) = ?B - chunk_size"
      using B1 by (simp add: slice_and_process_chunk slice_and_process_fields)
    moreover have "chunk_size \<le> ?B" using True B1 by linarith
    then have "?B div chunk_size = Suc ((?B - chunk_size) div chunk_size)"
      using chunk_size_pos by (simp add: le_div_geq)
    ultimately show ?thesis
      unfolding pending_work_def q2 by simp
  next
    case False
    then have b2: "length (audio_chunk ?s2) + length (concat (audio_buffer ?s2)) = ?B"
      using B1 by (simp add: slice_and_process_chunk slice_and_process_fields)
    have pw: "pending_work ?s2 = length (tl (audio_buffer s)) + ?B div chunk_size"
      unfolding pending_work_def b2 by (simp add: q2)
    show ?thesis
    proof (cases "audio_buffer s")
      case Nil
      then have "?B < chunk_size"
        using False by (simp add: collect_frame_queue)
      then have "?B div chunk_size = 0" by simp
      with Nil pw show ?thesis by simp
    next
      case (Cons f q)
      with pw show ?thesis
        by (simp add: pending_work_def)
    qed
  qed
qed

lemma length_concat_uniform:
  "\<forall>c \<in> set cs. length c = n \<Longrightarrow> length (concat cs) = length cs * n"
  by (induction cs) simp_all

lemma worker_loop_invariants:
  assumes "is_recording s" and "\<forall>c \<in> set (chunks (trace s)). length c = chunk_size"
  shows "stream_of (snd (worker_loop eng clock s)) = stream_of s
     \<and> (\<forall>c \<in> set (chunks (trace (snd (worker_loop eng clock s)))). length c = chunk_size)
     \<and> pending_work (snd (worker_loop eng clock s)) \<le> pending_work s - length clock
     \<and> is_recording (snd (worker_loop eng clock s))"
  using assms
proof (induction clock arbitrary: s)
  case Nil
  then show ?case by (simp add: worker_loop_def)
next
  case (Cons now clock)
  let ?s' = "snd (slice_and_process eng now (snd (collect_frame s)))"
  have step: "worker_loop eng (now # clock) s = worker_loop eng clock ?s'"
    using Cons.prems(1) by (simp add: worker_loop_def worker_iteration_eq)
  have r: "is_recording ?s'"
    using Cons.prems(1) by (simp add: slice_and_process_fields collect_frame_fields)
  have l: "\<forall>c \<in> set (chunks (trace ?s')). length c = chunk_size"
    using Cons.prems(2) by (rule chunk_lengths_iteration)
  have p: "pending_work ?s' \<le> pending_work s - 1"
    by (rule pending_work_iteration)
  have ih: "stream_of (snd (worker_loop eng clock ?s')) = stream_of ?s'"
    "\<forall>c \<in> set (chunks (trace (snd (worker_loop eng clock ?s')))). length c = chunk_size"
    "pending_work (snd (worker_loop eng clock ?s')) \<le> pending_work ?s' - length clock"
    "is_recording (snd (worker_loop eng clock ?s'))"
    using Cons.IH [OF r l] by simp_all
  have "pending_work (snd (worker_loop eng clock ?s')) \<le> pending_work s - length (now # clock)"
    using ih(3) p by simp
  with ih show ?case
    unfolding step by (simp add: stream_iteration)
qed

lemma small_frames_loop:
  assumes "is_recording s" and "length (audio_chunk s) < chunk_size"
    and "\<forall>f \<in> set (audio_buffer s). length f \<le> chunk_size"
    and "length clock = length (audio_buffer s)"
  shows "audio_buffer (snd (worker_loop eng clock s)) = []
     \<and> length (audio_chunk (snd (worker_loop eng clock s))) < chunk_size"
  using assms
proof (induction clock arbitrary: s)
  case Nil
  then show ?case by (simp add: worker_loop_def)
next
  case (Cons now clock)
  let ?s' = "snd (slice_and_process eng now (snd (collect_frame s)))"
  obtain f q where q: "audio_buffer s = f # q"
    using Cons.prems(4) by (cases "audio_buffer s") simp_all
  have step: "worker_loop eng (now # clock) s = worker_loop eng clock ?s'"
    using Cons.prems(1) by (simp add: worker_loop_def worker_iteration_eq)
  have r: "is_recording ?s'"
    using Cons.prems(1) by (simp add: slice_and_process_fields collect_frame_fields)
  have b: "length (audio_chunk ?s') < chunk_size"
    using Cons.prems(2,3) q by (auto simp: slice_and_process_chunk collect_frame_queue)
  have qq: "audio_buffer ?s' = q"
    using q by (simp add: slice_and_process_fields collect_frame_queue)
  from Cons.IH [OF r b] qq Cons.prems(3,4) q show ?case
    unfolding step by simp
qed

lemma length_concat_replicate: "length (concat (replicate n xs)) = n * length xs"
  by (induction n) simp_all

lemma run_append: "run eng (acts @ rest) s = run eng rest (snd (run eng acts s))"
  by (induction eng acts s rule: run.induct) (simp_all add: worker_iteration_eq)

lemma run_is_recording: "is_recording (snd (run eng acts s)) = is_recording s"
  by (induction eng acts s rule: run.induct)
     (simp_all add: worker_iteration_eq callback_fields slice_and_process_fields
        collect_frame_fields)

lemma gathered_iteration:
  assumes "gathered s"
  shows "gathered (snd (slice_and_process eng now (snd (collect_frame s))))"
proof -
  let ?s1 = "snd (collect_frame s)"
  have "concat (chunks (trace ?s1)) @ audio_chunk ?s1
      = (concat (chunks (trace s)) @ audio_chunk s) @ concat (take 1 (audio_buffer s))"
    by (simp add: collect_frame_fields collect_frame_queue)
  then have "gathered ?s1"
    using assms by (simp add: gathered_def collect_frame_queue)
  then show ?thesis
    by (simp add: gathered_def slice_and_process_chunk slice_and_process_fields)
qed

lemma run_invariant:
  assumes step: "\<And>s now. P s \<Longrightarrow> P (snd (slice_and_process eng now (snd (collect_frame s))))"
    and cb: "\<And>s d. P s \<Longrightarrow> Callback d \<in> set acts \<Longrightarrow> P (fst (audio_callback s d))"
    and "P s"
  shows "P (snd (run eng acts s))"
  using cb \<open>P s\<close>
proof (induction acts arbitrary: s)
  case Nil
  then show ?case by simp
next
  case (Cons a acts)
  have cb': "\<And>s d. P s \<Longrightarrow> Callback d \<in> set acts \<Longrightarrow> P (fst (audio_callback s d))"
    using Cons.prems(1) by simp
  show ?case
  proof (cases a)
    case (Callback d)
    have "P (fst (audio_callback s d))"
      using Cons.prems Callback by simp
    from Cons.IH [OF cb' this] show ?thesis using Callback by simp
  next
    case (Iterate now)
    show ?thesis
    proof (cases "is_recording s")
      case True
      have "P (snd (slice_and_process eng now (snd (collect_frame s))))"
        using Cons.prems(2) by (rule step)
      from Cons.IH [OF cb' this] show ?thesis
        using Iterate True by (simp add: worker_iteration_eq)
    next
      case False
      from Cons.IH [OF cb' Cons.prems(2)] show ?thesis
        using Iterate False by simp
    qed
  qed
qed

lemma gathered_run:
  assumes "gathered s"
  shows "gathered (snd (run eng acts s))"
proof (rule run_invariant [where P = gathered])
  show "gathered s" by (rule assms)
next
  fix s now assume "gathered s"
  then show "gathered (snd (slice_and_process eng now (snd (collect_frame s))))"
    by (rule gathered_iteration)
next
  fix s d assume "gathered s"
  then show "gathered (fst (audio_callback s d))"
    by (simp add: gathered_def callback_fields)
qed

lemma chunk_lengths_run:
  assumes "\<forall>c \<in> set (chunks (trace s)). length c = chunk_size"
  shows "\<forall>c \<in> set (chunks (trace (snd (run eng acts s)))). length c = chunk_size"
proof (rule run_invariant
    [where P = "\<lambda>s. \<forall>c \<in> set (chunks (trace s)). length c = chunk_size"])
  fix s :: sys and now :: hms
  assume "\<forall>c \<in> set (chunks (trace s)). length c = chunk_size"
  then show "\<forall>c \<in> set (chunks (trace (snd (slice_and_process eng now
      (snd (collect_frame s)))))). length c = chunk_size"
    by (rule chunk_lengths_iteration)
next
  fix s :: sys and d :: bytes
  assume "\<forall>c \<in> set (chunks (trace s)). length c = chunk_size"
  then show "\<forall>c \<in> set (chunks (trace (fst (audio_callback s d)))). length c = chunk_size"
    by (simp add: callback_fields)
qed (rule assms)

lemma small_frames_iteration:
  assumes "small_frames s"
  shows "small_frames (snd (slice_and_process eng now (snd (collect_frame s))))"
proof (cases "audio_buffer s")
  case Nil
  with assms show ?thesis
    by (simp add: small_frames_def slice_and_process_chunk slice_and_process_fields
        collect_frame_queue)
next
  case (Cons f q)
  with assms show ?thesis
    by (auto simp: small_frames_def slice_and_process_chunk slice_and_process_fields
        collect_frame_queue)
qed

lemma small_frames_run:
  assumes "small_frames s" and "\<forall>d. Callback d \<in> set acts \<longrightarrow> length d \<le> chunk_size"
  shows "small_frames (snd (run eng acts s))"
proof (rule run_invariant [where P = small_frames])
  show "small_frames s" by (rule assms(1))
next
  fix s now assume "small_frames s"
  then show "small_frames (snd (slice_and_process eng now (snd (collect_frame s))))"
    by (rule small_frames_iteration)
next
  fix s d assume "small_frames s" and "Callback d \<in> set acts"
  with assms(2) show "small_frames (fst (audio_callback s d))"
    by (simp add: small_frames_def callback_fields callback_queue)
qed

lemma settled_after:
  assumes "is_recording s" and "pending_work s \<le> length clock"
  shows "audio_buffer (snd (run eng (map Iterate clock) s)) = []
     \<and> length (audio_chunk (snd (run eng (map Iterate clock) s))) < chunk_size"
proof -
  let ?t = "snd (run eng (map Iterate clock) s)"
  have "pending_work (snd (worker_loop eng clock s)) \<le> pending_work s - length clock"
    using assms(1)
  proof (induction clock arbitrary: s)
    case Nil
    then show ?case by (simp add: worker_loop_def)
  next
    case (Cons now clock)
    let ?s' = "snd (slice_and_process eng now (snd (collect_frame s)))"
    have step: "worker_loop eng (now # clock) s = worker_loop eng clock ?s'"
      using Cons.prems by (simp add: worker_loop_def worker_iteration_eq)
    have r: "is_recording ?s'"
      using Cons.prems by (simp add: slice_and_process_fields collect_frame_fields)
    have "pending_work ?s' \<le> pending_work s - 1" by (rule pending_work_iteration)
    with Cons.IH [OF r] show ?case unfolding step by simp
  qed
  with assms(2) have z: "pending_work ?t = 0" by (simp add: worker_loop_def)
  then have q: "audio_buffer ?t = []" by (simp add: pending_work_def)
  from z q have "length (audio_chunk ?t) < chunk_size"
    using chunk_size_pos by (simp add: pending_work_def div_eq_0_iff)
  with q show ?thesis by simp
qed

lemmas pass_simps = worker_iteration_eq callback_fields callback_queue slice_and_process_fields
  slice_and_process_chunk collect_frame_fields collect_frame_queue chunk_size_value

lemma two_frames_fed:
  "fed (trace (snd (run silence
      [Callback (replicate 24000 0), Iterate (0, 0, 0), Callback (replicate 24000 0),
       Iterate (0, 0, 1)] started)))
     = [replicate 24000 0, replicate 24000 0]"
  by (simp add: pass_simps started_def fresh_def)

section \<open>The chunker\<close>

text \<open>
  C1. The claim: every chunk sliced off by the worker has
  \<open>sampleRate * channelCount * bytesPerSample * windowDurationSeconds = 16000 * 1 * 2 * 3\<close>
  bytes, that is 3 seconds of audio. The code computes \<^verbatim>\<open>chunk_size = int(RATE * 3.0)\<close>,
  a number of samples, and compares it with a length in bytes. Fed 24 frames of 1024
  silent samples (2048 bytes each), the worker emits one chunk of 48000 bytes: 24000
  samples, 1.5 seconds.
\<close>

theorem chunk_is_48000_bytes:
  "map length (chunks (trace (snd (worker_loop silence (replicate 24 (12, 0, 0))
       (started\<lparr>audio_buffer := replicate 24 (replicate 2048 0)\<rparr>))))) = [48000]
   \<and> (48000::nat) \<noteq> 16000 * 1 * 2 * 3"
proof -
  let ?s = "started\<lparr>audio_buffer := replicate 24 (replicate 2048 0)\<rparr>"
  let ?t = "snd (worker_loop silence (replicate 24 (12, 0, 0)) ?s)"
  have rec: "is_recording ?s" by (simp add: started_def fresh_def)
  have ch: "\<forall>c \<in> set (chunks (trace ?s)). length c = chunk_size"
    by (simp add: started_def fresh_def)
  have inv: "stream_of ?t = stream_of ?s" "\<forall>c \<in> set (chunks (trace ?t)). length c = chunk_size"
    using worker_loop_invariants [OF rec ch, of silence "replicate 24 (12, 0, 0)"] by simp_all
  have fin: "audio_buffer ?t = []" "length (audio_chunk ?t) < chunk_size"
    using small_frames_loop [of ?s "replicate 24 (12, 0, 0)" silence]
    by (simp_all add: started_def fresh_def chunk_size_value)
  have "length (stream_of ?s) = 49152"
    by (simp add: stream_of_def started_def fresh_def length_concat_replicate)
  then have "length (stream_of ?t) = 49152"
    by (simp only: inv(1))
  then have "length (concat (chunks (trace ?t))) + length (audio_chunk ?t) = 49152"
    unfolding stream_of_def fin(1) by simp
  then have "length (chunks (trace ?t)) * 48000 + length (audio_chunk ?t) = 49152"
    using length_concat_uniform [OF inv(2)] by (simp add: chunk_size_value)
  with fin(2) have "length (chunks (trace ?t)) = 1"
    by (simp add: chunk_size_value) 
  then obtain c where c: "chunks (trace ?t) = [c]"
    by (cases "chunks (trace ?t)") simp_all
  with inv(2) have "length c = 48000" by (simp add: chunk_size_value)
  with c show ?thesis by simp
qed

text \<open>
  C2. From the start of the worker and after every schedule of callbacks and worker
  passes, \<open>t\<close> being the state reached: every chunk handed to \<^verbatim>\<open>process_audio\<close> has
  exactly \<open>chunk_size\<close> bytes, and the chunks in emission order followed by the
  accumulator are the bytes of the frames taken from the queue, in order (no loss, no
  reordering, no overlap). Whenever the accumulator is below one chunk, the number of
  chunks is the fed length divided by \<open>chunk_size\<close>; if moreover the fed length is a
  multiple of \<open>chunk_size\<close>, the chunks concatenated are exactly the fed bytes and the
  accumulator is empty. The accumulator is below one chunk after every schedule when no
  frame is longer than a chunk, and in any case after \<open>pending_work t\<close> further
  passes, which also empty the queue.
\<close>

theorem lossless_chunking:
  assumes start: "audio_chunk s = []" "fed (trace s) = []" "chunks (trace s) = []"
    and t: "t = snd (run eng acts s)"
    and u: "u = snd (run eng (acts @ map Iterate clock) s)"
  shows "(\<forall>c \<in> set (chunks (trace t)). length c = chunk_size)
     \<and> concat (chunks (trace t)) @ audio_chunk t = concat (fed (trace t))
     \<and> (length (audio_chunk t) < chunk_size \<longrightarrow>
          length (chunks (trace t)) = length (concat (fed (trace t))) div chunk_size)
     \<and> (chunk_size dvd length (concat (fed (trace t))) \<and> length (audio_chunk t) < chunk_size \<longrightarrow>
          concat (chunks (trace t)) = concat (fed (trace t)) \<and> audio_chunk t = [])
     \<and> (list_all (\<lambda>f. length f \<le> chunk_size) (audio_buffer s)
          \<and> (\<forall>d. Callback d \<in> set acts \<longrightarrow> length d \<le> chunk_size) \<longrightarrow>
          length (audio_chunk t) < chunk_size)
     \<and> (is_recording s \<and> pending_work t \<le> length clock \<longrightarrow>
          length (audio_chunk u) < chunk_size \<and> audio_buffer u = [])"
proof -
  have sizes: "\<forall>c \<in> set (chunks (trace t)). length c = chunk_size"
    unfolding t by (rule chunk_lengths_run) (simp add: start)
  have "gathered s" by (simp add: gathered_def start)
  then have "gathered t" unfolding t by (rule gathered_run)
  then have str: "concat (chunks (trace t)) @ audio_chunk t = concat (fed (trace t))"
    by (simp add: gathered_def)
  have total: "length (chunks (trace t)) * chunk_size + length (audio_chunk t)
      = length (concat (fed (trace t)))"
    using arg_cong [OF str, of length] length_concat_uniform [OF sizes] by simp
  have count: "length (chunks (trace t)) = length (concat (fed (trace t))) div chunk_size"
    if "length (audio_chunk t) < chunk_size"
    using that total by (metis add.commute div_mult_self1 div_less add.right_neutral
        less_nat_zero_code mult.commute)
  have whole: "concat (chunks (trace t)) = concat (fed (trace t)) \<and> audio_chunk t = []"
    if "chunk_size dvd length (concat (fed (trace t)))" "length (audio_chunk t) < chunk_size"
  proof -
    have "chunk_size dvd length (audio_chunk t)"
      using that(1) total by (metis dvd_add_right_iff dvd_triv_right)
    with that(2) have "audio_chunk t = []" by (auto dest: dvd_imp_le)
    with str show ?thesis by simp
  qed
  have small: "length (audio_chunk t) < chunk_size"
    if "list_all (\<lambda>f. length f \<le> chunk_size) (audio_buffer s)"
      "\<forall>d. Callback d \<in> set acts \<longrightarrow> length d \<le> chunk_size"
  proof -
    have "small_frames s" using that(1) start chunk_size_pos by (simp add: small_frames_def)
    then have "small_frames t" unfolding t using that(2) by (rule small_frames_run)
    then show ?thesis by (simp add: small_frames_def)
  qed
  have settle: "length (audio_chunk u) < chunk_size \<and> audio_buffer u = []"
    if "is_recording s" "pending_work t \<le> length clock"
  proof -
    have "is_recording t" unfolding t using that(1) by (simp add: run_is_recording)
    from settled_after [OF this that(2), of eng] show ?thesis
      unfolding u run_append t by simp
  qed
  from sizes str count whole small settle show ?thesis by blast
qed

theorem lossless_chunking_witness:
  "length (chunks (trace (snd (run silence
      [Callback (replicate 24000 0), Iterate (0, 0, 0), Callback (replicate 24000 0),
       Iterate (0, 0, 1)] started)))) = 1
   \<and> concat (chunks (trace (snd (run silence
      [Callback (replicate 24000 0), Iterate (0, 0, 0), Callback (replicate 24000 0),
       Iterate (0, 0, 1)] started)))) = replicate 24000 0 @ replicate 24000 0
   \<and> audio_chunk (snd (run silence
      [Callback (replicate 24000 0), Iterate (0, 0, 0), Callback (replicate 24000 0),
       Iterate (0, 0, 1)] started)) = []"
proof -
  let ?acts = "[Callback (replicate 24000 0), Iterate (0, 0, 0), Callback (replicate 24000 0),
       Iterate (0, 0, 1)]"
  let ?t = "snd (run silence ?acts started)"
  have small: "list_all (\<lambda>f. length f \<le> chunk_size) (audio_buffer started)
      \<and> (\<forall>d. Callback d \<in> set ?acts \<longrightarrow> length d \<le> chunk_size)"
    by (auto simp: started_def fresh_def chunk_size_value)
  have multiple: "chunk_size dvd length (concat (fed (trace ?t)))"
    unfolding two_frames_fed by (simp add: chunk_size_value)
  have total: "length (concat (fed (trace ?t))) div chunk_size = 1"
    unfolding two_frames_fed by (simp add: chunk_size_value)
  have whole: "concat (fed (trace ?t)) = replicate 24000 0 @ replicate 24000 0"
    unfolding two_frames_fed by simp
  have start: "audio_chunk started = []" "fed (trace started) = []" "chunks (trace started) = []"
    by (simp_all add: started_def fresh_def)
  have "(length (audio_chunk ?t) < chunk_size \<longrightarrow>
          length (chunks (trace ?t)) = length (concat (fed (trace ?t))) div chunk_size)
     \<and> (chunk_size dvd length (concat (fed (trace ?t))) \<and> length (audio_chunk ?t) < chunk_size \<longrightarrow>
          concat (chunks (trace ?t)) = concat (fed (trace ?t)) \<and> audio_chunk ?t = [])
     \<and> (list_all (\<lambda>f. length f \<le> chunk_size) (audio_buffer started)
          \<and> (\<forall>d. Callback d \<in> set ?acts \<longrightarrow> length d \<le> chunk_size) \<longrightarrow>
          length (audio_chunk ?t) < chunk_size)"
    using lossless_chunking [OF start refl refl, of silence ?acts "[]"] by blast
  with small multiple have r: "length (chunks (trace ?t)) = length (concat (fed (trace ?t))) div chunk_size"
    "concat (chunks (trace ?t)) = concat (fed (trace ?t))" "audio_chunk ?t = []"
    by blast+
  from r(1) total have "length (chunks (trace ?t)) = 1" by (rule trans)
  moreover from r(2) whole have "concat (chunks (trace ?t)) = replicate 24000 0 @ replicate 24000 0"
    by (rule trans)
  ultimately show ?thesis using r(3) by blast
qed

text \<open>
  C3. From the start of the worker (empty accumulator, nothing fed, nothing emitted) and
  after every schedule of callbacks and worker passes, the accumulator holds the bytes
  taken from the queue so far minus \<open>chunk_size\<close> for each chunk emitted so far. The
  schedule is arbitrary, so the equation holds after each pass and not only at the end.
\<close>

theorem accumulator_accounting:
  assumes "audio_chunk s = []" and "fed (trace s) = []" and "chunks (trace s) = []"
  shows "length (audio_chunk (snd (run eng acts s)))
           = length (concat (fed (trace (snd (run eng acts s)))))
             - length (chunks (trace (snd (run eng acts s)))) * chunk_size
         \<and> length (chunks (trace (snd (run eng acts s)))) * chunk_size
             \<le> length (concat (fed (trace (snd (run eng acts s)))))"
proof -
  have "accounted s" using assms by (simp add: accounted_def)
  then have "accounted (snd (run eng acts s))" by (rule accounted_run)
  then show ?thesis unfolding accounted_def by linarith
qed

theorem accumulator_accounting_witness:
  "length (audio_chunk (snd (run silence
       [Callback [1, 2, 3], Iterate (0, 0, 0), Callback [4], Iterate (0, 0, 1)] started)))
     = length (concat (fed (trace (snd (run silence
         [Callback [1, 2, 3], Iterate (0, 0, 0), Callback [4], Iterate (0, 0, 1)] started)))))
       - length (chunks (trace (snd (run silence
         [Callback [1, 2, 3], Iterate (0, 0, 0), Callback [4], Iterate (0, 0, 1)] started))))
         * chunk_size"
  using accumulator_accounting [of started silence
      "[Callback [1, 2, 3], Iterate (0, 0, 0), Callback [4], Iterate (0, 0, 1)]"]
  by (simp add: started_def fresh_def)

section \<open>The worker loop\<close>

text \<open>
  C6. The claim: when the poll finds the queue empty, the worker sleeps before it retries.
  The code guards \<^verbatim>\<open>get_nowait\<close> with \<^verbatim>\<open>if not self.audio_buffer.empty()\<close>, so
  \<^verbatim>\<open>queue.Empty\<close> is never raised and the handler with \<^verbatim>\<open>time.sleep(0.01)\<close> is never
  entered: a pass on an empty queue changes nothing and the loop spins without a sleep.
\<close>

theorem empty_queue_poll_never_sleeps:
  "worker_iteration eng now started = (None, started)
   \<and> sleeps (trace (snd (worker_loop eng clock started))) = []"
proof -
  have it: "worker_iteration eng now started = (None, started)" for now
    by (simp add: worker_iteration_eq collect_frame_def slice_and_process_def started_def
        fresh_def chunk_size_value)
  have rec: "is_recording started" by (simp add: started_def fresh_def)
  have "worker_loop eng clock started = (None, started)"
  proof (induction clock)
    case Nil
    show ?case by (simp add: worker_loop_def)
  next
    case (Cons t clock)
    then show ?case using rec by (simp add: worker_loop_def it)
  qed
  moreover have "trace started = []" by (simp add: started_def fresh_def)
  ultimately show ?thesis using it by simp
qed

section \<open>Transcription of one chunk\<close>

text \<open>
  C7. A chunk with fewer than \<open>RATE = 16000\<close> samples (two bytes per sample; a buffer of
  odd length is rejected by \<^verbatim>\<open>np.frombuffer\<close>) gets no transcript from
  \<^verbatim>\<open>process_audio\<close>, and \<^verbatim>\<open>model.transcribe\<close> is not called on it.
\<close>

theorem short_chunk_not_transcribed:
  assumes "length audio_data div 2 < RATE"
  shows "fst (process_audio eng audio_data s) = Inr None
     \<and> transcribed (trace (snd (process_audio eng audio_data s))) = transcribed (trace s)"
proof (cases "odd (length audio_data)")
  case True
  then show ?thesis
    by (simp add: process_audio_def process_audio_try_def frombuffer_int16_def log_fields
        reader_append)
next
  case False
  with assms show ?thesis
    by (simp add: process_audio_def process_audio_try_def frombuffer_int16_def to_float_def
        length_int16_samples)
qed

theorem short_chunk_not_transcribed_witness:
  "fst (process_audio silence (replicate 31998 0) fresh) = Inr None
   \<and> transcribed (trace (snd (process_audio silence (replicate 31998 0) fresh))) = []"
proof -
  have h: "length (replicate 31998 (0::byte)) div 2 < RATE" by (simp add: RATE_def)
  show ?thesis
    using short_chunk_not_transcribed [OF h, of silence fresh] by (simp add: fresh_def)
qed

section \<open>The capture callback\<close>

text \<open>
  C10. \<^verbatim>\<open>audio_callback\<close> always returns \<^verbatim>\<open>(in_data, pyaudio.paContinue)\<close>. When
  \<^verbatim>\<open>is_recording\<close> is cleared the frame is not put in the queue: the state is unchanged,
  so every later schedule runs as if the frame had never been captured.
\<close>

theorem callback_returns_and_drops:
  "snd (audio_callback s in_data) = (in_data, paContinue)
   \<and> (\<not> is_recording s \<longrightarrow>
        fst (audio_callback s in_data) = s
        \<and> run eng (Callback in_data # acts) s = run eng acts s)"
  by (simp add: audio_callback_def)

theorem callback_returns_and_drops_witness:
  "snd (audio_callback fresh [1, 2]) = ([1, 2], 0)
   \<and> fst (audio_callback fresh [1, 2]) = fresh
   \<and> run silence [Callback [1, 2], Iterate (0, 0, 0)] fresh = run silence [Iterate (0, 0, 0)] fresh"
proof -
  have h: "\<not> is_recording fresh" by (simp add: fresh_def)
  show ?thesis
    using h callback_returns_and_drops [of fresh "[1, 2]" silence "[Iterate (0, 0, 0)]"]
    by (simp add: paContinue_def)
qed

section \<open>The text of a transcript\<close>

lemma last_dropWhile: "dropWhile P xs \<noteq> [] \<Longrightarrow> last (dropWhile P xs) = last xs"
  by (induction xs) (auto split: if_splits)

lemma strip_trimmed:
  assumes "strip x \<noteq> []"
  shows "trimmed (strip x)"
proof -
  let ?y = "dropWhile isspace x"
  let ?z = "dropWhile isspace (rev ?y)"
  have z: "?z \<noteq> []" using assms by (simp add: strip_def)
  have y: "?y \<noteq> []"
  proof
    assume "?y = []"
    then have "?z = []" by (simp only: rev.simps(1) dropWhile.simps(1))
    with z show False by blast
  qed
  have "\<not> isspace (hd ?z)" using z by (rule hd_dropWhile)
  then have l: "\<not> isspace (last (rev ?z))" by (simp add: last_rev)
  have "last ?z = last (rev ?y)" using z by (rule last_dropWhile)
  also have "\<dots> = hd ?y" by (simp add: last_rev)
  finally have "hd (rev ?z) = hd ?y" by (simp add: hd_rev)
  moreover have "\<not> isspace (hd ?y)" using y by (rule hd_dropWhile)
  ultimately have "\<not> isspace (hd (rev ?z))" by simp
  with l z show ?thesis by (simp add: trimmed_def strip_def)
qed

lemma isspace_32: "isspace 32"
  by (simp add: isspace_def)

lemma strip_trimmed_space:
  assumes "trimmed u"
  shows "strip (u @ [32]) = u"
proof -
  obtain a v where u: "u = a # v" using assms by (cases u) (simp_all add: trimmed_def)
  have a: "\<not> isspace a" using assms u by (simp add: trimmed_def)
  have d1: "dropWhile isspace (u @ [32]) = u @ [32]" using u a by simp
  have "rev u \<noteq> []" using u by simp
  moreover have "\<not> isspace (hd (rev u))" using assms by (simp add: trimmed_def hd_rev)
  ultimately have d2: "dropWhile isspace (rev u) = rev u"
    by (cases "rev u") simp_all
  show ?thesis
    unfolding strip_def d1 using d2 by (simp add: isspace_32)
qed

lemma collect_segments_eq:
  "collect_segments segments acc
     = acc @ concat (map (\<lambda>t. t @ [32]) (filter (\<lambda>t. t \<noteq> []) (map strip segments)))"
  by (induction segments arbitrary: acc) simp_all

lemma concat_spaced: "ts \<noteq> [] \<Longrightarrow> concat (map (\<lambda>t. t @ [32]) ts) = join_spaces ts @ [32]"
  by (induction ts rule: join_spaces.induct) simp_all

lemma trimmed_join:
  "ts \<noteq> [] \<Longrightarrow> \<forall>t \<in> set ts. trimmed t \<Longrightarrow> trimmed (join_spaces ts)"
proof (induction ts rule: join_spaces.induct)
  case 1
  then show ?case by simp
next
  case (2 t)
  then show ?case by simp
next
  case (3 t u ts)
  then have "trimmed (join_spaces (u # ts))" and "trimmed t" by simp_all
  then show ?case by (cases t) (auto simp: trimmed_def)
qed

lemma text_of_segments:
  "strip (collect_segments segments [])
     = join_spaces (filter (\<lambda>t. t \<noteq> []) (map strip segments))"
proof (cases "filter (\<lambda>t. t \<noteq> []) (map strip segments) = []")
  case True
  then show ?thesis by (simp add: collect_segments_eq strip_def)
next
  case False
  let ?ts = "filter (\<lambda>t. t \<noteq> []) (map strip segments)"
  have "\<forall>t \<in> set ?ts. trimmed t" by (auto intro: strip_trimmed)
  with False have "trimmed (join_spaces ?ts)" by (rule trimmed_join)
  then have "strip (join_spaces ?ts @ [32]) = join_spaces ?ts" by (rule strip_trimmed_space)
  with False show ?thesis by (simp add: collect_segments_eq concat_spaced)
qed

lemma next_chunk_collect:
  "take chunk_size (audio_chunk (snd (collect_frame s))) = next_chunk s"
  "length (audio_chunk (snd (collect_frame s)))
     = length (audio_chunk s @ concat (take 1 (audio_buffer s)))"
  by (simp_all add: next_chunk_def collect_frame_queue)

lemma process_audio_chunk:
  assumes "length c = chunk_size"
  shows "process_audio eng c s =
     (case eng (waveform c) of
        Inl m \<Rightarrow> (Inr None, log (Print (msg_audio_error @ m)) (log (Transcribe (waveform c)) s))
      | Inr segments \<Rightarrow>
          (Inr (Some (join_spaces (filter (\<lambda>t. t \<noteq> []) (map strip segments)))),
           log (Transcribe (waveform c)) s))"
  using assms
  by (simp add: process_audio_def process_audio_try_def frombuffer_int16_def to_float_def
      waveform_def length_int16_samples chunk_size_value RATE_def text_of_segments
      split: sum.split)

lemma length_next_chunk:
  "chunk_size \<le> length (audio_chunk s @ concat (take 1 (audio_buffer s)))
     \<Longrightarrow> length (next_chunk s) = chunk_size"
  by (simp add: next_chunk_def)

lemma iteration_on_chunk:
  assumes "chunk_size \<le> length (audio_chunk s @ concat (take 1 (audio_buffer s)))"
  shows "printed (trace (snd (worker_iteration eng now s))) =
     printed (trace s) @
       (case eng (waveform (next_chunk s)) of
          Inl m \<Rightarrow> [msg_audio_error @ m]
        | Inr segments \<Rightarrow>
            if join_spaces (filter (\<lambda>t. t \<noteq> []) (map strip segments)) = [] then []
            else [msg_clock @ [91] @ strftime_HMS now @ [93, 32]
                    @ join_spaces (filter (\<lambda>t. t \<noteq> []) (map strip segments))])"
proof -
  let ?s1 = "snd (collect_frame s)"
  have big: "chunk_size \<le> length (audio_chunk ?s1)"
    using assms by (simp add: next_chunk_collect)
  have c: "take chunk_size (audio_chunk ?s1) = next_chunk s"
    by (rule next_chunk_collect)
  have len: "length (next_chunk s) = chunk_size"
    using assms by (rule length_next_chunk)
  show ?thesis
    unfolding worker_iteration_eq
    using big
    by (simp add: slice_and_process_def Let_def c process_audio_chunk [OF len] log_fields
        collect_frame_fields reader_append split: sum.split)
qed

text \<open>
  C9. When the chunk sliced in a pass is transcribed without error, the pass prints
  exactly one line if the text is not empty, and nothing if it is empty. The text is the
  non-empty trimmed segments joined in order by single spaces. The line is a clock emoji
  (U+1F550) and a space, then \<open>[HH:MM:SS]\<close>, a space and the text: the code writes
  the emoji before the bracket.
\<close>

theorem transcript_line:
  assumes "chunk_size \<le> length (audio_chunk s @ concat (take 1 (audio_buffer s)))"
    and "eng (waveform (next_chunk s)) = Inr segments"
  shows "printed (trace (snd (worker_iteration eng now s))) =
     printed (trace s) @
       (if join_spaces (filter (\<lambda>t. t \<noteq> []) (map strip segments)) = [] then []
        else [msg_clock @ [91] @ strftime_HMS now @ [93, 32]
                @ join_spaces (filter (\<lambda>t. t \<noteq> []) (map strip segments))])"
  using assms(2) by (simp add: iteration_on_chunk [OF assms(1)])

theorem transcript_line_witness:
  "printed (trace (snd (worker_iteration hello (12, 34, 56)
       (started\<lparr>audio_chunk := replicate 48000 0\<rparr>))))
     = [[128336, 32] @ ascii ''[12:34:56] hello'']"
proof -
  let ?s = "started\<lparr>audio_chunk := replicate 48000 0\<rparr>"
  have h1: "chunk_size \<le> length (audio_chunk ?s @ concat (take 1 (audio_buffer ?s)))"
    by (simp add: chunk_size_value)
  have h2: "hello (waveform (next_chunk ?s)) = Inr [ascii ''hello'']"
    by (simp add: hello_def)
  have st: "strip [104, 101, 108, 108, 111] = [104, 101, 108, 108, 111]"
    by (simp add: strip_def isspace_def)
  show ?thesis
    using h1 h2 transcript_line
      [where s = ?s and eng = hello and segments = "[ascii ''hello'']" and now = "(12, 34, 56)"]
    by (simp add: st started_def fresh_def msg_clock_def two_digits_def ascii_def)
qed

text \<open>
  The line is not the bare \<open>[HH:MM:SS] text\<close>: with an engine that answers
  \<open>hello\<close> at 12:34:56 the printed line differs from \<open>[12:34:56] hello\<close>.
\<close>

lemma hello_line:
  "printed (trace (snd (worker_iteration hello (12, 34, 56)
       (started\<lparr>audio_chunk := replicate 48000 0\<rparr>))))
     = [[128336, 32] @ ascii ''[12:34:56] hello'']"
proof -
  let ?s = "started\<lparr>audio_chunk := replicate 48000 0\<rparr>"
  have h1: "chunk_size \<le> length (audio_chunk ?s @ concat (take 1 (audio_buffer ?s)))"
    by (simp add: chunk_size_value)
  have st: "strip [104, 101, 108, 108, 111] = [104, 101, 108, 108, 111]"
    by (simp add: strip_def isspace_def)
  show ?thesis
    unfolding iteration_on_chunk [OF h1]
    by (simp add: hello_def st started_def fresh_def msg_clock_def two_digits_def ascii_def)
qed

theorem transcript_line_has_prefix:
  "printed (trace (snd (worker_iteration hello (12, 34, 56)
       (started\<lparr>audio_chunk := replicate 48000 0\<rparr>))))
     \<noteq> [ascii ''[12:34:56] hello'']"
  unfolding hello_line by (simp add: ascii_def)

section \<open>A failing transcription\<close>

lemma iteration_hands_over:
  assumes "chunk_size \<le> length (audio_chunk s @ concat (take 1 (audio_buffer s)))"
  shows "chunks (trace (snd (worker_iteration eng now s))) = chunks (trace s) @ [next_chunk s]"
    and "transcribed (trace (snd (worker_iteration eng now s)))
           = transcribed (trace s) @ [waveform (next_chunk s)]"
proof -
  let ?s1 = "snd (collect_frame s)"
  have big: "chunk_size \<le> length (audio_chunk ?s1)"
    using assms by (simp add: next_chunk_collect)
  have c: "take chunk_size (audio_chunk ?s1) = next_chunk s"
    by (rule next_chunk_collect)
  have len: "length (next_chunk s) = chunk_size"
    using assms by (rule length_next_chunk)
  show "chunks (trace (snd (worker_iteration eng now s))) = chunks (trace s) @ [next_chunk s]"
    unfolding worker_iteration_eq using big
    by (simp add: slice_and_process_chunk c collect_frame_fields)
  show "transcribed (trace (snd (worker_iteration eng now s)))
           = transcribed (trace s) @ [waveform (next_chunk s)]"
    unfolding worker_iteration_eq using big
    by (simp add: slice_and_process_def Let_def c process_audio_chunk [OF len] log_fields
        collect_frame_fields reader_append split: sum.split)
qed

lemma process_audio_printed:
  "\<exists>r. printed (trace (snd (process_audio eng d s))) = printed (trace s) @ r"
  using process_audio_try_fields(9) [of eng d s]
  by (auto simp: process_audio_def log_fields reader_append split: prod.split sum.split)

lemma iteration_printed:
  "\<exists>r. printed (trace (snd (slice_and_process eng now (snd (collect_frame s)))))
         = printed (trace s) @ r"
proof -
  let ?s1 = "snd (collect_frame s)"
  let ?c = "take chunk_size (audio_chunk ?s1)"
  let ?s2 = "log (ProcessAudio ?c) (?s1\<lparr>audio_chunk := drop chunk_size (audio_chunk ?s1)\<rparr>)"
  obtain r where r: "printed (trace (snd (process_audio eng ?c ?s2))) = printed (trace ?s2) @ r"
    using process_audio_printed by blast
  have p2: "printed (trace ?s2) = printed (trace s)"
    by (simp add: log_fields reader_append collect_frame_fields)
  show ?thesis
    using r p2
    by (auto simp: slice_and_process_def Let_def log_fields reader_append collect_frame_fields
        split: prod.split sum.split option.split)
qed

lemma run_printed:
  "\<exists>r. printed (trace (snd (run eng acts s))) = printed (trace s) @ r"
proof (rule run_invariant [where P = "\<lambda>x. \<exists>r. printed (trace x) = printed (trace s) @ r"])
  show "\<exists>r. printed (trace s) = printed (trace s) @ r" by simp
next
  fix x :: sys and now :: hms
  assume "\<exists>r. printed (trace x) = printed (trace s) @ r"
  then obtain r where r: "printed (trace x) = printed (trace s) @ r" by blast
  obtain r' where "printed (trace (snd (slice_and_process eng now (snd (collect_frame x)))))
         = printed (trace x) @ r'"
    using iteration_printed by blast
  with r have "printed (trace (snd (slice_and_process eng now (snd (collect_frame x)))))
         = printed (trace s) @ (r @ r')" by simp
  then show "\<exists>r. printed (trace (snd (slice_and_process eng now (snd (collect_frame x)))))
         = printed (trace s) @ r" by blast
next
  fix x :: sys and d :: bytes
  assume "\<exists>r. printed (trace x) = printed (trace s) @ r"
  then show "\<exists>r. printed (trace (fst (audio_callback x d))) = printed (trace s) @ r"
    by (simp add: callback_fields)
qed

lemma waveform_Cons:
  "waveform (lo # hi # rest) = (real_of_int (sint (word_cat hi lo :: 16 word)) / 32768) # waveform rest"
  by (simp add: waveform_def to_float_def)

lemma replicate_two: "replicate (Suc (Suc n)) x = x # x # replicate n x"
  by simp

lemma hd_waveform_replicate:
  "hd (waveform (replicate 48000 b)) = real_of_int (sint (word_cat b b :: 16 word)) / 32768"
proof -
  have "replicate 48000 b = b # b # replicate 47998 b"
    using replicate_two [of 47998 b] by simp
  then show ?thesis by (simp add: waveform_Cons)
qed

lemma picky_silence: "picky (waveform (replicate 48000 0)) = Inl (ascii ''boom'')"
  unfolding picky_def hd_waveform_replicate by (simp add: word_cat_eq)

lemma picky_tone: "picky (waveform (replicate 48000 1)) = Inr [ascii ''hello'']"
proof -
  have "(word_cat (1 :: 8 word) (1 :: 8 word) :: 16 word) = 257"
    by (simp add: word_cat_eq)
  then show ?thesis
    unfolding picky_def hd_waveform_replicate by simp
qed

text \<open>
  C5. Let the engine raise on the chunk sliced in a pass of a running worker. Then
  \<^verbatim>\<open>process_audio\<close> catches the exception, prints the error line and returns no
  transcript, and the pass prints that line only. The worker goes on: after any further
  schedule \<open>acts\<close> of callbacks and passes, in a state \<open>s2\<close> where a chunk is due, the
  next pass ends normally, leaves the worker running, hands the chunk to
  \<^verbatim>\<open>process_audio\<close>, sends its waveform to the engine and prints the transcript line of
  that chunk (or its error line, if the engine raises again). The engine's failures are
  instances of \<^verbatim>\<open>Exception\<close>.
\<close>

theorem transcription_failure_is_contained:
  assumes rec: "is_recording s"
    and avail: "chunk_size \<le> length (audio_chunk s @ concat (take 1 (audio_buffer s)))"
    and fail: "eng (waveform (next_chunk s)) = Inl m"
    and s2: "s2 = snd (run eng (Iterate now # acts) s)"
    and later: "chunk_size \<le> length (audio_chunk s2 @ concat (take 1 (audio_buffer s2)))"
    and s3: "s3 = snd (run eng (Iterate now # acts @ [Iterate now2]) s)"
  shows "process_audio eng (next_chunk s) s0
       = (Inr None,
          log (Print (msg_audio_error @ m)) (log (Transcribe (waveform (next_chunk s))) s0))
     \<and> printed (trace (snd (run eng [Iterate now] s)))
         = printed (trace s) @ [msg_audio_error @ m]
     \<and> (\<exists>r. printed (trace s2) = printed (trace s) @ [msg_audio_error @ m] @ r)
     \<and> fst (run eng (Iterate now # acts @ [Iterate now2]) s) = None
     \<and> is_recording s3
     \<and> chunks (trace s3) = chunks (trace s2) @ [next_chunk s2]
     \<and> transcribed (trace s3) = transcribed (trace s2) @ [waveform (next_chunk s2)]
     \<and> printed (trace s3) = printed (trace s2) @
         (case eng (waveform (next_chunk s2)) of
            Inl m2 \<Rightarrow> [msg_audio_error @ m2]
          | Inr segments \<Rightarrow>
              if join_spaces (filter (\<lambda>t. t \<noteq> []) (map strip segments)) = [] then []
              else [msg_clock @ [91] @ strftime_HMS now2 @ [93, 32]
                      @ join_spaces (filter (\<lambda>t. t \<noteq> []) (map strip segments))])"
proof -
  let ?s1 = "snd (worker_iteration eng now s)"
  have len: "length (next_chunk s) = chunk_size"
    using avail by (rule length_next_chunk)
  have a: "process_audio eng (next_chunk s) s0
       = (Inr None,
          log (Print (msg_audio_error @ m)) (log (Transcribe (waveform (next_chunk s))) s0))"
    using fail by (simp add: process_audio_chunk [OF len])
  have p1: "printed (trace ?s1) = printed (trace s) @ [msg_audio_error @ m]"
    using fail by (simp add: iteration_on_chunk [OF avail])
  have one: "run eng [Iterate now] s = (None, ?s1)"
    using rec by (simp add: worker_iteration_eq)
  have b: "printed (trace (snd (run eng [Iterate now] s)))
         = printed (trace s) @ [msg_audio_error @ m]"
    unfolding one using p1 by simp
  have s2': "s2 = snd (run eng acts ?s1)"
    unfolding s2 using rec by (simp add: worker_iteration_eq)
  obtain r where "printed (trace s2) = printed (trace ?s1) @ r"
    unfolding s2' using run_printed by blast
  with p1 have c: "\<exists>r. printed (trace s2) = printed (trace s) @ [msg_audio_error @ m] @ r"
    by simp
  have rec2: "is_recording s2"
    unfolding s2 using rec by (simp only: run_is_recording)
  have "run eng (Iterate now # acts @ [Iterate now2]) s
      = run eng [Iterate now2] (snd (run eng (Iterate now # acts) s))"
    using run_append [of eng "Iterate now # acts" "[Iterate now2]" s] by simp
  then have s3': "s3 = snd (worker_iteration eng now2 s2)"
    unfolding s3 using rec2 s2 by (simp add: worker_iteration_eq)
  have rec3: "is_recording s3"
    unfolding s3 using rec by (simp only: run_is_recording)
  have d: "chunks (trace s3) = chunks (trace s2) @ [next_chunk s2]"
    "transcribed (trace s3) = transcribed (trace s2) @ [waveform (next_chunk s2)]"
    unfolding s3' using iteration_hands_over [OF later] by simp_all
  have e: "printed (trace s3) = printed (trace s2) @
         (case eng (waveform (next_chunk s2)) of
            Inl m2 \<Rightarrow> [msg_audio_error @ m2]
          | Inr segments \<Rightarrow>
              if join_spaces (filter (\<lambda>t. t \<noteq> []) (map strip segments)) = [] then []
              else [msg_clock @ [91] @ strftime_HMS now2 @ [93, 32]
                      @ join_spaces (filter (\<lambda>t. t \<noteq> []) (map strip segments))])"
    unfolding s3' by (rule iteration_on_chunk [OF later])
  have f: "fst (run eng (Iterate now # acts @ [Iterate now2]) s) = None"
    by (rule run_returns)
  from a b c f rec3 d e show ?thesis by blast
qed

theorem transcription_failure_is_contained_witness:
  "printed (trace (snd (run picky
       [Iterate (12, 34, 56), Callback (replicate 48000 1), Iterate (12, 34, 59)]
       silent_then_tone)))
     = [msg_audio_error @ ascii ''boom'', msg_clock @ ascii ''[12:34:59] hello'']
   \<and> chunks (trace (snd (run picky
       [Iterate (12, 34, 56), Callback (replicate 48000 1), Iterate (12, 34, 59)]
       silent_then_tone)))
     = [replicate 48000 0, replicate 48000 1]
   \<and> fst (run picky
       [Iterate (12, 34, 56), Callback (replicate 48000 1), Iterate (12, 34, 59)]
       silent_then_tone) = None"
proof -
  let ?s = silent_then_tone
  let ?s2 = "snd (run picky (Iterate (12, 34, 56) # [Callback (replicate 48000 1)]) ?s)"
  let ?s3 = "snd (run picky (Iterate (12, 34, 56) # [Callback (replicate 48000 1)]
      @ [Iterate (12, 34, 59)]) ?s)"
  have rec: "is_recording ?s"
    by (simp add: silent_then_tone_def started_def fresh_def)
  have avail: "chunk_size \<le> length (audio_chunk ?s @ concat (take 1 (audio_buffer ?s)))"
    by (simp add: silent_then_tone_def started_def fresh_def chunk_size_value)
  have nc: "next_chunk ?s = replicate 48000 0"
    by (simp add: next_chunk_def silent_then_tone_def started_def fresh_def chunk_size_value)
  have fail: "picky (waveform (next_chunk ?s)) = Inl (ascii ''boom'')"
    unfolding nc by (rule picky_silence)
  have buf2: "audio_chunk ?s2 = []" "audio_buffer ?s2 = [replicate 48000 1]"
    by (simp_all add: pass_simps silent_then_tone_def started_def fresh_def)
  have later: "chunk_size \<le> length (audio_chunk ?s2 @ concat (take 1 (audio_buffer ?s2)))"
    unfolding buf2 by (simp add: chunk_size_value)
  have nc2: "next_chunk ?s2 = replicate 48000 1"
    unfolding next_chunk_def buf2 by (simp add: chunk_size_value)
  have tr2: "trace ?s2 = trace (snd (run picky [Iterate (12, 34, 56)] ?s))"
    using rec by (simp add: worker_iteration_eq callback_fields)
  have start: "printed (trace ?s) = []" "chunks (trace ?s) = []"
    by (simp_all add: silent_then_tone_def started_def fresh_def)
  have line: "strip [104, 101, 108, 108, 111] = [104, 101, 108, 108, 111]"
    by (simp add: strip_def isspace_def)
  have inst: "printed (trace (snd (run picky [Iterate (12, 34, 56)] ?s)))
         = printed (trace ?s) @ [msg_audio_error @ ascii ''boom'']
     \<and> fst (run picky (Iterate (12, 34, 56) # [Callback (replicate 48000 1)]
          @ [Iterate (12, 34, 59)]) ?s) = None
     \<and> chunks (trace ?s3) = chunks (trace ?s2) @ [next_chunk ?s2]
     \<and> printed (trace ?s3) = printed (trace ?s2) @
         (case picky (waveform (next_chunk ?s2)) of
            Inl m2 \<Rightarrow> [msg_audio_error @ m2]
          | Inr segments \<Rightarrow>
              if join_spaces (filter (\<lambda>t. t \<noteq> []) (map strip segments)) = [] then []
              else [msg_clock @ [91] @ strftime_HMS (12, 34, 59) @ [93, 32]
                      @ join_spaces (filter (\<lambda>t. t \<noteq> []) (map strip segments))])"
    using transcription_failure_is_contained [OF rec avail fail refl later refl, of fresh "(12, 34, 59)"]
    by blast
  have p2: "printed (trace ?s2) = [msg_audio_error @ ascii ''boom'']"
    unfolding tr2 using inst start by simp
  have c1: "chunks (trace (snd (run picky [Iterate (12, 34, 56)] ?s))) = [replicate 48000 0]"
    using rec iteration_hands_over(1) [OF avail, of picky "(12, 34, 56)"] start nc
    by (simp add: worker_iteration_eq)
  have c2: "chunks (trace ?s2) = [replicate 48000 0]"
    unfolding tr2 by (rule c1)
  have p3: "printed (trace ?s3)
      = [msg_audio_error @ ascii ''boom'', msg_clock @ ascii ''[12:34:59] hello'']"
    using inst unfolding p2 nc2 picky_tone
    by (simp add: line ascii_def two_digits_def)
  have c3: "chunks (trace ?s3) = [replicate 48000 0, replicate 48000 1]"
    using inst unfolding c2 nc2 by simp
  from p3 c3 inst show ?thesis by simp
qed

section \<open>Stopping the session\<close>

lemma stop_recording_quiet:
  assumes "lb (trace s @ [Print msg_stopping]) StopStream = None"
    and "lb (trace s @ [Print msg_stopping, Call StopStream]) CloseStream = None"
    and "lb (trace s @ [Print msg_stopping, Call StopStream, Call CloseStream]) Terminate = None"
    and "has_stream s" and "has_p s"
  shows "stop_recording lb s
     = (None, s\<lparr>is_recording := False, trace := trace s @ release_events\<rparr>)"
  using assms
  by (simp add: stop_recording_def andthen_def call_def log_def release_events_def)

lemma stop_recording_returns:
  assumes "\<forall>tr. lb tr StopStream = None \<and> lb tr CloseStream = None \<and> lb tr Terminate = None"
  shows "fst (stop_recording lb s) = None"
  using assms
  by (simp add: stop_recording_def andthen_def call_def log_def)

lemma session_eq:
  "has_stream session" "has_p session" "is_recording session"
  "calls (trace session) = [LoadModel, NewPyAudio, OpenStream, StartStream, StartThread]"
  by (simp_all add: session_def start_recording_def init_def andthen_def call_def log_def
      quiet_def fresh_def)

lemma calls_release: "calls release_events = [StopStream, CloseStream, Terminate]"
  by (simp add: release_events_def)

text \<open>
  C4. On a started session, and with an audio library whose \<^verbatim>\<open>stop_stream\<close>,
  \<^verbatim>\<open>close\<close> and \<^verbatim>\<open>terminate\<close> do not raise, two calls of \<^verbatim>\<open>stop_recording\<close> in
  succession both return normally. The second call is not skipped: \<^verbatim>\<open>hasattr\<close> still
  holds, so it clears the flag again and calls \<^verbatim>\<open>stop_stream\<close>, \<^verbatim>\<open>close\<close> and
  \<^verbatim>\<open>terminate\<close> a second time. It changes nothing else in the session.
\<close>

theorem stop_twice_releases_twice:
  assumes "has_stream s" and "has_p s"
    and "\<forall>tr. lb tr StopStream = None \<and> lb tr CloseStream = None \<and> lb tr Terminate = None"
  shows "stop_recording lb s
       = (None, s\<lparr>is_recording := False, trace := trace s @ release_events\<rparr>)
     \<and> stop_recording lb (snd (stop_recording lb s))
       = (None, s\<lparr>is_recording := False,
                  trace := trace s @ release_events @ release_events\<rparr>)"
proof -
  have one: "stop_recording lb s
       = (None, s\<lparr>is_recording := False, trace := trace s @ release_events\<rparr>)"
    using assms by (intro stop_recording_quiet) simp_all
  have "stop_recording lb (s\<lparr>is_recording := False, trace := trace s @ release_events\<rparr>)
       = (None, (s\<lparr>is_recording := False, trace := trace s @ release_events\<rparr>)
            \<lparr>is_recording := False,
             trace := trace (s\<lparr>is_recording := False, trace := trace s @ release_events\<rparr>)
                        @ release_events\<rparr>)"
    using assms by (intro stop_recording_quiet) simp_all
  with one show ?thesis by simp
qed

theorem stop_twice_releases_twice_witness:
  "stop_recording quiet (snd (stop_recording quiet session))
     = (None, session\<lparr>is_recording := False,
                       trace := trace session @ release_events @ release_events\<rparr>)"
proof -
  have q: "\<forall>tr. quiet tr StopStream = None \<and> quiet tr CloseStream = None \<and> quiet tr Terminate = None"
    by (simp add: quiet_def)
  show ?thesis
    using stop_twice_releases_twice [of session quiet, OF session_eq(1) session_eq(2) q]
    by (rule conjunct2)
qed

text \<open>
  The second stop is not a no-op: it makes the three release calls again.
\<close>

theorem second_stop_releases_again:
  "calls (trace (snd (stop_recording quiet stopped_once)))
     = calls (trace stopped_once) @ [StopStream, CloseStream, Terminate]
   \<and> stop_recording quiet stopped_once \<noteq> (None, stopped_once)"
proof -
  have q: "quiet tr c = None" for tr c by (simp add: quiet_def)
  have one: "stopped_once = session\<lparr>is_recording := False, trace := trace session @ release_events\<rparr>"
    unfolding stopped_once_def
    by (simp add: stop_recording_quiet [of quiet session] q session_eq)
  have two: "stop_recording quiet stopped_once
      = (None, stopped_once\<lparr>is_recording := False, trace := trace stopped_once @ release_events\<rparr>)"
    by (rule stop_recording_quiet) (simp_all add: q one session_eq)
  have "trace (snd (stop_recording quiet stopped_once)) \<noteq> trace stopped_once"
    unfolding two by (simp add: release_events_def)
  then have "stop_recording quiet stopped_once \<noteq> (None, stopped_once)" by auto
  then show ?thesis
    unfolding two by (simp add: calls_append calls_release)
qed

section \<open>The exit status of \<^verbatim>\<open>main\<close>\<close>

lemma andthen_raises:
  "fst (andthen r f) = Some e \<longleftrightarrow>
     fst r = Some e \<or> (fst r = None \<and> fst (f (snd r)) = Some e)"
  by (cases r) (auto simp: andthen_def split: option.split)

lemma call_raises: "fst (call lb c s) = Some e \<Longrightarrow> is_Exception e"
  by (auto simp: call_def split: option.splits)

lemma init_raises: "fst (init lb s) = Some e \<Longrightarrow> is_Exception e"
  by (auto simp: init_def andthen_raises dest: call_raises)

lemma start_recording_raises: "fst (start_recording lb s) = Some e \<Longrightarrow> is_Exception e"
  by (auto simp: start_recording_def andthen_raises dest: call_raises)

lemma stop_recording_teardown:
  assumes "\<forall>tr. lb tr StopStream = None \<and> lb tr CloseStream = None \<and> lb tr Terminate = None"
  shows "stop_recording lb s = (None, s\<lparr>is_recording := False, trace := trace s @ teardown s\<rparr>)"
  using assms
  by (simp add: stop_recording_def andthen_def call_def log_def teardown_def)

lemma teardown_log: "teardown (log e s) = teardown s"
  by (simp add: teardown_def log_fields)

lemma teardown_started: "has_stream s \<Longrightarrow> has_p s \<Longrightarrow> teardown s = release_events"
  by (simp add: teardown_def release_events_def)

lemma wait_loop_eq:
  "wait_loop n s = (Some KeyboardInterrupt, s\<lparr>trace := trace s @ replicate (Suc n) (Sleep 100)\<rparr>)"
proof (induction n arbitrary: s)
  case 0
  show ?case by (simp add: log_def)
next
  case (Suc n)
  have "[Sleep 100] @ replicate (Suc n) (Sleep 100) = replicate (Suc (Suc n)) (Sleep 100)"
    by simp
  then show ?case
    by (simp add: Suc.IH log_def del: replicate.simps)
qed

lemma start_recording_ok:
  assumes "fst (start_recording lb s) = None"
  shows "has_stream (snd (start_recording lb s))" "has_p (snd (start_recording lb s))"
    "is_recording (snd (start_recording lb s))"
  using assms
  by (auto simp: start_recording_def andthen_def call_def log_def split: option.splits)

lemma quiet_startup:
  "fst (init quiet fresh) = None" "fst (start_recording quiet (snd (init quiet fresh))) = None"
  by (simp_all add: start_recording_def init_def andthen_def call_def log_def quiet_def)

lemma no_device_startup:
  "fst (init no_device fresh) = None"
  "fst (start_recording no_device (snd (init no_device fresh)))
     = Some (Exception (ascii ''Invalid input device''))"
  "teardown no_device_session = [Print msg_stopping, Call Terminate, Print msg_stopped]"
  by (simp_all add: no_device_session_def teardown_def start_recording_def init_def andthen_def
      call_def log_def no_device_def fresh_def)

text \<open>
  C8. With an audio library whose release calls do not raise, \<^verbatim>\<open>main\<close> returns, so the
  process ends with status 0, both when the interrupt arrives and when start-up fails.
  On the interrupt (after \<open>n\<close> completed sleeps of the wait loop) it prints the
  interruption message and runs \<^verbatim>\<open>stop_recording\<close>, which clears the flag, stops and
  closes the stream and terminates PyAudio. When the model fails to load it prints the
  error and has nothing to tear down. When \<^verbatim>\<open>start_recording\<close> fails (the audio device
  is unavailable) it prints the error and runs \<^verbatim>\<open>stop_recording\<close> on what was acquired.
  In every case the result is the exact final state with no exception pending.
\<close>

theorem main_exits_zero:
  assumes quiet: "\<forall>tr. lb tr StopStream = None \<and> lb tr CloseStream = None \<and> lb tr Terminate = None"
    and s1: "s1 = snd (init lb fresh)"
    and s2: "s2 = snd (start_recording lb s1)"
  shows "(fst (init lb fresh) = Some e \<longrightarrow>
            main lb interrupt
              = Some (None, s1\<lparr>trace := trace s1 @ [Print (msg_main_error @ str_exn e)]\<rparr>))
     \<and> (fst (init lb fresh) = None \<and> fst (start_recording lb s1) = Some e \<longrightarrow>
            main lb interrupt
              = Some (None, s2\<lparr>is_recording := False,
                     trace := trace s2 @ [Print (msg_main_error @ str_exn e)] @ teardown s2\<rparr>))
     \<and> (fst (init lb fresh) = None \<and> fst (start_recording lb s1) = None \<longrightarrow>
            main lb (Some n)
              = Some (None, s2\<lparr>is_recording := False,
                     trace := trace s2 @ replicate (Suc n) (Sleep 100)
                                @ [Print msg_interrupted] @ release_events\<rparr>))
     \<and> map_option exit_code (main lb (Some n)) = Some 0
     \<and> (fst (init lb fresh) \<noteq> None \<or> fst (start_recording lb s1) \<noteq> None \<longrightarrow>
            map_option exit_code (main lb interrupt) = Some 0)"
proof -
  note stop = stop_recording_teardown [OF quiet]
  have A: "main lb interrupt
      = Some (None, s1\<lparr>trace := trace s1 @ [Print (msg_main_error @ str_exn e)]\<rparr>)"
    if f: "fst (init lb fresh) = Some e" for e interrupt
  proof -
    have i: "init lb fresh = (Some e, s1)" using f s1 by (cases "init lb fresh") simp
    have ex: "is_Exception e" using f by (rule init_raises)
    then have "e \<noteq> KeyboardInterrupt" by auto
    with ex i show ?thesis by (simp add: main_def main_handlers_def log_def)
  qed
  have B: "main lb interrupt
      = Some (None, s2\<lparr>is_recording := False,
             trace := trace s2 @ [Print (msg_main_error @ str_exn e)] @ teardown s2\<rparr>)"
    if f: "fst (init lb fresh) = None" "fst (start_recording lb s1) = Some e" for e interrupt
  proof -
    have i: "init lb fresh = (None, s1)" using f(1) s1 by (cases "init lb fresh") simp
    have r: "start_recording lb s1 = (Some e, s2)"
      using f(2) s2 by (cases "start_recording lb s1") simp
    have ex: "is_Exception e" using f(2) by (rule start_recording_raises)
    then have "e \<noteq> KeyboardInterrupt" by auto
    with ex i r show ?thesis
      by (simp add: main_def main_handlers_def stop teardown_log) (simp add: log_def)
  qed
  have C: "main lb (Some n)
      = Some (None, s2\<lparr>is_recording := False,
             trace := trace s2 @ replicate (Suc n) (Sleep 100)
                        @ [Print msg_interrupted] @ release_events\<rparr>)"
    if f: "fst (init lb fresh) = None" "fst (start_recording lb s1) = None" for n
  proof -
    have i: "init lb fresh = (None, s1)" using f(1) s1 by (cases "init lb fresh") simp
    have r: "start_recording lb s1 = (None, s2)"
      using f(2) s2 by (cases "start_recording lb s1") simp
    have h: "has_stream s2" "has_p s2"
      unfolding s2 using f(2) by (rule start_recording_ok)+
    have t: "teardown (log (Print msg_interrupted)
        (s2\<lparr>trace := trace s2 @ replicate (Suc n) (Sleep 100)\<rparr>)) = release_events"
      using h by (simp add: teardown_log teardown_started)
    show ?thesis
      using i r
      by (simp add: main_def main_handlers_def wait_loop_eq stop t del: replicate.simps)
         (simp add: log_def)
  qed
  have D: "map_option exit_code (main lb (Some n)) = Some 0"
  proof (cases "fst (init lb fresh)")
    case (Some e)
    then show ?thesis using A [of e "Some n"] by simp
  next
    case None
    show ?thesis
    proof (cases "fst (start_recording lb s1)")
      case (Some e)
      then show ?thesis using B [OF None, of e "Some n"] by simp
    next
      case None': None
      show ?thesis using C [OF None None', of n] by simp
    qed
  qed
  have E: "map_option exit_code (main lb interrupt) = Some 0"
    if "fst (init lb fresh) \<noteq> None \<or> fst (start_recording lb s1) \<noteq> None"
  proof (cases "fst (init lb fresh)")
    case (Some e)
    then show ?thesis using A [of e interrupt] by simp
  next
    case None
    with that obtain e where "fst (start_recording lb s1) = Some e" by auto
    then show ?thesis using B [OF None, of e interrupt] by simp
  qed
  from A B C D E show ?thesis by blast
qed

theorem main_exits_zero_witness:
  "main quiet (Some 3)
     = Some (None, session\<lparr>is_recording := False,
              trace := trace session @ replicate 4 (Sleep 100)
                         @ [Print msg_interrupted] @ release_events\<rparr>)
   \<and> map_option exit_code (main quiet (Some 3)) = Some 0
   \<and> main no_device None
     = Some (None, no_device_session\<lparr>is_recording := False,
              trace := trace no_device_session
                         @ [Print (msg_main_error @ ascii ''Invalid input device'')]
                         @ [Print msg_stopping, Call Terminate, Print msg_stopped]\<rparr>)
   \<and> map_option exit_code (main no_device None) = Some 0"
proof -
  have q: "\<forall>tr. quiet tr StopStream = None \<and> quiet tr CloseStream = None \<and> quiet tr Terminate = None"
    by (simp add: quiet_def)
  have d: "\<forall>tr. no_device tr StopStream = None \<and> no_device tr CloseStream = None
      \<and> no_device tr Terminate = None"
    by (simp add: no_device_def)
  have four: "Suc 3 = 4" by simp
  have a: "main quiet (Some 3)
     = Some (None, session\<lparr>is_recording := False,
              trace := trace session @ replicate (Suc 3) (Sleep 100)
                         @ [Print msg_interrupted] @ release_events\<rparr>)
    \<and> map_option exit_code (main quiet (Some 3)) = Some 0"
    using main_exits_zero [OF q refl session_def, where n = 3] quiet_startup by blast
  have b: "main no_device None
     = Some (None, no_device_session\<lparr>is_recording := False,
              trace := trace no_device_session
                         @ [Print (msg_main_error
                              @ str_exn (Exception (ascii ''Invalid input device'')))]
                         @ teardown no_device_session\<rparr>)
    \<and> map_option exit_code (main no_device None) = Some 0"
    using main_exits_zero [OF d refl no_device_session_def,
        where e = "Exception (ascii ''Invalid input device'')" and interrupt = None]
      no_device_startup(1,2) by simp
  from a b show ?thesis
    unfolding four no_device_startup(3) by simp
qed

text \<open>
  A model that fails to load does not give a non-zero status.
\<close>

theorem startup_error_exits_zero:
  "main model_fails None \<noteq> None \<and> exit_code (the (main model_fails None)) = 0"
  by (simp add: main_def init_def andthen_def call_def log_def model_fails_def
      main_handlers_def fresh_def)

end
